theory Spec2Isabelle
  imports Complex_Main
begin

section \<open>Data model of \<^verbatim>\<open>src/architecture/network.js\<close>\<close>

text \<open>
  JavaScript objects have identity: a node is referenced from the network's node list
  and from the connections that start or end at it, a connection from the network's
  connection list and from its list of gates. In the model every node carries an
  identifier \<open>nid\<close> and every ordinary connection an identifier \<open>cid\<close>; a reference
  is the identifier. \<open>next_node\<close> and \<open>next_conn\<close> are the allocation counters that
  stand for \<^verbatim>\<open>new Node()\<close> and \<^verbatim>\<open>new Connection()\<close> returning a fresh object.

  Numbers are mathematical: sizes are integers, weights, biases and scores are reals
  (no NaN, no infinities). The rounding of doubles is written out in two places, the
  size of an offspring in \<^verbatim>\<open>cross_over\<close> and the index of \<^verbatim>\<open>POWER\<close> in
  \<^verbatim>\<open>getParent\<close>; everywhere else the arithmetic is exact.
  \<^verbatim>\<open>Math.random()\<close> is an explicit source of draws, a sequence of reals which the
  caller supplies and every function that draws returns advanced.
\<close>

datatype node_type = Input | Hidden | Output | Constant

datatype error =
    NoSizeGiven          \<comment> \<open>\<^verbatim>\<open>No input or output size given\<close>\<close>
  | TypeError            \<comment> \<open>a property read from \<^verbatim>\<open>undefined\<close>\<close>
  | AlreadyProjecting    \<comment> \<open>duplicate ordinary connection\<close>
  | NotPartOfNetwork     \<comment> \<open>\<^verbatim>\<open>This node is not part of the network!\<close>\<close>
  | NotGated             \<comment> \<open>\<^verbatim>\<open>This connection is not gated!\<close>\<close>
  | NodeDoesNotExist     \<comment> \<open>\<^verbatim>\<open>This node does not exist in the network!\<close>\<close>
  | NoMutateMethod       \<comment> \<open>\<^verbatim>\<open>No (correct) mutate method given!\<close>\<close>
  | SizeMismatch         \<comment> \<open>\<^verbatim>\<open>Networks don`t have the same input/output size!\<close>\<close>
  | CannotEvolve         \<comment> \<open>\<^verbatim>\<open>Can`t evolve! Elitism + provenance exceeds population size!\<close>\<close>
  | TournamentSize       \<comment> \<open>\<^verbatim>\<open>Your tournament size should be lower than the population size\<close>\<close>
  | RangeError           \<comment> \<open>\<^verbatim>\<open>Array(n)\<close> with a negative length\<close>
  | MissingDataset       \<comment> \<open>\<^verbatim>\<open>parameter.is.required("dataset")\<close>\<close>
  | NotBoolean           \<comment> \<open>\<^verbatim>\<open>pickGenome must always return a boolean!\<close>\<close>
  | NotNetwork           \<comment> \<open>\<^verbatim>\<open>adjustGenome must always return a network!\<close>\<close>

type_synonym rand = "nat \<Rightarrow> real"

definition rhd :: "rand \<Rightarrow> real" where
  "rhd r = r 0"

definition rtl :: "rand \<Rightarrow> rand" where
  "rtl r = (\<lambda>n. r (Suc n))"

definition const_rand :: "real \<Rightarrow> rand" where
  "const_rand x = (\<lambda>n. x)"

definition valid_rand :: "rand \<Rightarrow> bool" where
  "valid_rand r = (\<forall>n. 0 \<le> r n \<and> r n < 1)"

text \<open>\<^verbatim>\<open>Math.floor(x)\<close> used as an array index: a negative index reads \<^verbatim>\<open>undefined\<close>.\<close>

definition nth_opt :: "'a list \<Rightarrow> int \<Rightarrow> 'a option" where
  "nth_opt xs i = (if 0 \<le> i \<and> i < int (length xs) then Some (xs ! nat i) else None)"

text \<open>
  The double nearest to a real: 53 significant bits, ties to the even significand. The
  range of the exponent is not bounded (no overflow, no subnormal numbers).
\<close>

definition round_half_even :: "real \<Rightarrow> int" where
  "round_half_even q =
     (let n = \<lfloor>q\<rfloor>
      in if q - of_int n < 1 / 2 then n
         else if 1 / 2 < q - of_int n then n + 1
         else if even n then n else n + 1)"

definition ulp :: "real \<Rightarrow> real" where
  "ulp x = 2 powr (of_int \<lfloor>log 2 \<bar>x\<bar>\<rfloor> - 52)"

definition double :: "real \<Rightarrow> real" where
  "double x = (if x = 0 then 0 else sgn x * of_int (round_half_even (\<bar>x\<bar> / ulp x)) * ulp x)"

text \<open>\<^verbatim>\<open>xs[Math.floor(Math.random() * xs.length)]\<close>\<close>

definition random_index :: "real \<Rightarrow> nat \<Rightarrow> int" where
  "random_index r n = \<lfloor>r * real n\<rfloor>"

text \<open>
  Modelled from the spec: the Node class (\<^verbatim>\<open>./node\<close>) is not among the sources. Its
  fields are those of section 3 of the specification: kind, bias, activation, state,
  squash id, mask (default 1) and the self-connection (\<^verbatim>\<open>node.connections.self\<close>, an
  object that always exists and is inactive while its weight is 0). The lists
  \<^verbatim>\<open>node.connections.in\<close>, \<^verbatim>\<open>out\<close> and \<^verbatim>\<open>gated\<close> are derived from the network's
  connection lists (section 9: adjacency lists derived from the connection set), in
  the order of creation. A new node has bias 0, activation 0, state 0 and the first
  squash of the registry; no theorem depends on these initial values.
\<close>

record node =
  nid :: nat
  ntype :: node_type
  bias :: real
  squash :: int
  activation :: real
  state :: real
  mask :: real
  self_weight :: real
  self_gater :: "nat option"

definition new_Node :: "nat \<Rightarrow> node_type \<Rightarrow> node" where
  "new_Node i t = \<lparr> nid = i, ntype = t, bias = 0, squash = 0, activation = 0, state = 0,
                    mask = 1, self_weight = 0, self_gater = None \<rparr>"

text \<open>
  Modelled from the spec: the Connection class (\<^verbatim>\<open>./connection\<close>) is not among the
  sources; section 3 gives it a weight, an optional gater and its two end nodes.
\<close>

record connection =
  cid :: nat
  cfrom :: nat
  cto :: nat
  weight :: real
  gater :: "nat option"

text \<open>A reference to a connection object: an ordinary one, or the self-connection of a node.\<close>

datatype conn_ref = CRef nat | SRef nat

record network =
  input_size :: int
  output_size :: int
  "input" :: int
  "output" :: int
  nodes :: "node list"
  connections :: "connection list"
  gates :: "conn_ref list"
  selfconns :: "nat list"
  dropout :: real
  score :: "real option"
  next_node :: nat
  next_conn :: nat

fun foldE :: "('a \<Rightarrow> 's \<Rightarrow> error + 's) \<Rightarrow> 'a list \<Rightarrow> 's \<Rightarrow> error + 's" where
  "foldE f [] s = Inr s"
| "foldE f (x # xs) s = (case f x s of Inl e \<Rightarrow> Inl e | Inr s' \<Rightarrow> foldE f xs s')"

subsection \<open>Looking nodes up\<close>

text \<open>\<^verbatim>\<open>this.nodes.indexOf(node)\<close>: the position of the first node with that identity.\<close>

fun indexOf :: "node list \<Rightarrow> nat \<Rightarrow> nat option" where
  "indexOf [] n = None"
| "indexOf (x # xs) n = (if nid x = n then Some 0 else map_option Suc (indexOf xs n))"

definition get_node :: "network \<Rightarrow> nat \<Rightarrow> node option" where
  "get_node net n = find (\<lambda>x. nid x = n) (nodes net)"

definition update_node :: "nat \<Rightarrow> (node \<Rightarrow> node) \<Rightarrow> network \<Rightarrow> network" where
  "update_node n f net = net\<lparr> nodes := map (\<lambda>x. if nid x = n then f x else x) (nodes net) \<rparr>"

definition update_conn :: "nat \<Rightarrow> (connection \<Rightarrow> connection) \<Rightarrow> network \<Rightarrow> network" where
  "update_conn c f net =
     net\<lparr> connections := map (\<lambda>x. if cid x = c then f x else x) (connections net) \<rparr>"

text \<open>\<^verbatim>\<open>node.connections.in\<close>, \<^verbatim>\<open>node.connections.out\<close> (derived, see above).\<close>

definition conns_in :: "network \<Rightarrow> nat \<Rightarrow> connection list" where
  "conns_in net n = filter (\<lambda>c. cto c = n) (connections net)"

definition conns_out :: "network \<Rightarrow> nat \<Rightarrow> connection list" where
  "conns_out net n = filter (\<lambda>c. cfrom c = n) (connections net)"

text \<open>The gater of the connection object a reference denotes (\<^verbatim>\<open>null\<close> is \<open>None\<close>).\<close>

definition ref_gater :: "network \<Rightarrow> conn_ref \<Rightarrow> nat option" where
  "ref_gater net r = (case r of
      CRef c \<Rightarrow> (case find (\<lambda>x. cid x = c) (connections net) of
                   None \<Rightarrow> None | Some x \<Rightarrow> gater x)
    | SRef n \<Rightarrow> (case get_node net n of None \<Rightarrow> None | Some x \<Rightarrow> self_gater x))"

definition set_ref_gater :: "conn_ref \<Rightarrow> nat option \<Rightarrow> network \<Rightarrow> network" where
  "set_ref_gater r g net = (case r of
      CRef c \<Rightarrow> update_conn c (\<lambda>x. x\<lparr> gater := g \<rparr>) net
    | SRef n \<Rightarrow> update_node n (\<lambda>x. x\<lparr> self_gater := g \<rparr>) net)"

subsection \<open>connect\<close>

text \<open>
  Modelled from the spec: \<^verbatim>\<open>Node.isProjectingTo\<close> and \<^verbatim>\<open>Node.connect\<close> are in the
  missing \<^verbatim>\<open>./node\<close>. Section 4.2: connect creates one connection from \<open>from\<close> to
  \<open>to\<close> and fails if a duplicate ordinary connection for the same ordered pair
  exists. Connecting a node to itself switches its self-connection on (an existing one
  keeps its weight; a weight that is missing or 0 becomes 1) and returns that object.
  A missing weight of an ordinary connection becomes \<open>default_weight\<close>; no theorem
  depends on its value.
\<close>

definition default_weight :: real where
  "default_weight = 1"

definition isProjectingTo :: "network \<Rightarrow> nat \<Rightarrow> nat \<Rightarrow> bool" where
  "isProjectingTo net f t =
     (if f = t then (case get_node net f of None \<Rightarrow> False | Some x \<Rightarrow> self_weight x \<noteq> 0)
      else list_ex (\<lambda>c. cfrom c = f \<and> cto c = t) (connections net))"

text \<open>
  \<^verbatim>\<open>Network.prototype.connect\<close> (lines 228-242) for a node target: the connection
  formed goes to \<^verbatim>\<open>selfconns\<close> when \<^verbatim>\<open>from === to\<close>, else to \<^verbatim>\<open>connections\<close>.
\<close>

definition connect :: "network \<Rightarrow> nat \<Rightarrow> nat \<Rightarrow> real option \<Rightarrow> error + (network \<times> conn_ref)" where
  "connect net f t w =
     (if f = t then
        let w' = (case w of None \<Rightarrow> 1 | Some v \<Rightarrow> if v = 0 then 1 else v);
            net' = update_node f (\<lambda>x. if self_weight x \<noteq> 0 then x else x\<lparr> self_weight := w' \<rparr>) net
        in Inr (net'\<lparr> selfconns := selfconns net' @ [f] \<rparr>, SRef f)
      else if isProjectingTo net f t then Inl AlreadyProjecting
      else
        let c = \<lparr> cid = next_conn net, cfrom = f, cto = t,
                  weight = (case w of None \<Rightarrow> default_weight | Some v \<Rightarrow> v), gater = None \<rparr>
        in Inr (net\<lparr> connections := connections net @ [c], next_conn := Suc (next_conn net) \<rparr>,
                CRef (cid c)))"

subsection \<open>The constructor\<close>

text \<open>
  \<^verbatim>\<open>function Network(input_size, output_size)\<close> (lines 40-75). An argument that is
  \<^verbatim>\<open>undefined\<close> is \<open>None\<close>. The first loop pushes a node for every
  \<open>0 \<le> i < input_size + output_size\<close>; the second connects every \<open>i < input_size\<close>
  to every \<open>input_size \<le> j < output_size + input_size\<close> with a drawn weight.
\<close>

definition initial_weight :: "int \<Rightarrow> real \<Rightarrow> real" where
  "initial_weight i r = r * real_of_int i * sqrt (2 / real_of_int i)"

definition connect_initial :: "nat \<times> nat \<Rightarrow> network \<times> rand \<Rightarrow> error + (network \<times> rand)" where
  "connect_initial p s =
     (case s of (net, rnd) \<Rightarrow>
        (case (nth_opt (nodes net) (int (fst p)), nth_opt (nodes net) (int (snd p))) of
           (Some a, Some b) \<Rightarrow>
             (case connect net (nid a) (nid b) (Some (initial_weight (input_size net) (rhd rnd))) of
                Inl e \<Rightarrow> Inl e
              | Inr (net', _) \<Rightarrow> Inr (net', rtl rnd))
         | _ \<Rightarrow> Inl TypeError))"

definition initial_pairs :: "int \<Rightarrow> int \<Rightarrow> (nat \<times> nat) list" where
  "initial_pairs i o' =
     concat (map (\<lambda>a. map (\<lambda>b. (a, b)) [nat i ..< nat (o' + i)]) [0 ..< nat i])"

definition initial_nodes :: "int \<Rightarrow> int \<Rightarrow> node list" where
  "initial_nodes i o' =
     map (\<lambda>k. new_Node k (if int k < i then Input else Output)) [0 ..< nat (i + o')]"

definition Network :: "int option \<Rightarrow> int option \<Rightarrow> rand \<Rightarrow> error + (network \<times> rand)" where
  "Network input_size' output_size' rnd =
     (case (input_size', output_size') of
        (Some i, Some o') \<Rightarrow>
          foldE connect_initial (initial_pairs i o')
            (\<lparr> input_size = i, output_size = o', input = i, output = o',
               nodes = initial_nodes i o', connections = [], gates = [], selfconns = [],
               dropout = 0, score = None,
               next_node = nat (i + o'), next_conn = 0 \<rparr>, rnd)
      | _ \<Rightarrow> Inl NoSizeGiven)"


section \<open>Structural editing\<close>

definition bindE :: "error + 'a \<Rightarrow> ('a \<Rightarrow> error + 'b) \<Rightarrow> error + 'b" where
  "bindE m f = (case m of Inl e \<Rightarrow> Inl e | Inr x \<Rightarrow> f x)"

text \<open>\<^verbatim>\<open>xs.splice(i, 1)\<close> at the first index whose element satisfies \<open>P\<close>.\<close>

fun remove_first :: "('a \<Rightarrow> bool) \<Rightarrow> 'a list \<Rightarrow> 'a list" where
  "remove_first P [] = []"
| "remove_first P (x # xs) = (if P x then xs else x # remove_first P xs)"

text \<open>\<^verbatim>\<open>xs.splice(k, 1)\<close> for an index \<open>k\<close> inside the list.\<close>

definition remove_nth :: "nat \<Rightarrow> 'a list \<Rightarrow> 'a list" where
  "remove_nth k xs = take k xs @ drop (Suc k) xs"

text \<open>
  \<^verbatim>\<open>ungate\<close> (lines 312-320). \<^verbatim>\<open>connection.gater.ungate(connection)\<close> is
  modelled from the spec (section 4.2: the gater is cleared); reading it from a
  connection whose gater is \<^verbatim>\<open>null\<close> is a TypeError.
\<close>

definition ungate :: "network \<Rightarrow> conn_ref \<Rightarrow> error + network" where
  "ungate net r =
     (if r \<notin> set (gates net) then Inl NotGated
      else (case ref_gater net r of
              None \<Rightarrow> Inl TypeError
            | Some g \<Rightarrow> Inr (set_ref_gater r None (net\<lparr> gates := remove1 r (gates net) \<rparr>))))"

text \<open>
  \<^verbatim>\<open>gate\<close> (lines 285-294). \<^verbatim>\<open>node.gate(connection)\<close> is modelled from the spec
  (section 4.2: sets the gater).
\<close>

definition gate :: "network \<Rightarrow> nat \<Rightarrow> conn_ref \<Rightarrow> error + network" where
  "gate net n r =
     (if indexOf (nodes net) n = None then Inl NotPartOfNetwork
      else if ref_gater net r \<noteq> None then Inr net
      else Inr ((set_ref_gater r (Some n) net)\<lparr> gates := gates net @ [r] \<rparr>))"

text \<open>
  \<^verbatim>\<open>disconnect\<close> (lines 254-269): the first matching connection of \<^verbatim>\<open>selfconns\<close>
  (when \<^verbatim>\<open>from === to\<close>) or of \<^verbatim>\<open>connections\<close> is ungated if it is gated, and
  spliced out. \<^verbatim>\<open>from.disconnect(to)\<close> is modelled from the spec: for a node and
  itself it switches the self-connection off (weight 0); for two nodes it only updates
  the nodes' derived lists.
\<close>

definition disconnect :: "network \<Rightarrow> nat \<Rightarrow> nat \<Rightarrow> error + network" where
  "disconnect net f t =
     (if f = t then
        bindE (if f \<in> set (selfconns net) \<and> ref_gater net (SRef f) \<noteq> None
               then ungate net (SRef f) else Inr net)
          (\<lambda>net1. Inr (update_node f (\<lambda>x. x\<lparr> self_weight := 0 \<rparr>)
                         (net1\<lparr> selfconns := remove1 f (selfconns net1) \<rparr>)))
      else
        (case find (\<lambda>c. cfrom c = f \<and> cto c = t) (connections net) of
           None \<Rightarrow> Inr net
         | Some c \<Rightarrow>
             bindE (if gater c \<noteq> None then ungate net (CRef (cid c)) else Inr net)
               (\<lambda>net1. Inr (net1\<lparr> connections :=
                    remove_first (\<lambda>c. cfrom c = f \<and> cto c = t) (connections net1) \<rparr>))))"

subsection \<open>remove\<close>

text \<open>
  \<^verbatim>\<open>node.connections.gated\<close> (derived): the gated connections whose gater is the
  node, in the order in which they were gated.
\<close>

definition conns_gated :: "network \<Rightarrow> nat \<Rightarrow> conn_ref list" where
  "conns_gated net n = filter (\<lambda>r. ref_gater net r = Some n) (gates net)"

text \<open>
  \<^verbatim>\<open>_.forEachRight(node.connections.in, ...)\<close> (lines 351-357) walks the indices
  \<open>length - 1, ..., 0\<close> of the length read at the start and reads the list again at
  every index, while \<^verbatim>\<open>disconnect\<close> shortens it. The state is the network, the
  gaters recorded so far and the nodes recorded so far.
\<close>

fun remove_in :: "bool \<Rightarrow> nat \<Rightarrow> nat \<Rightarrow> network \<times> nat list \<times> nat list
    \<Rightarrow> error + (network \<times> nat list \<times> nat list)" where
  "remove_in kg n 0 s = Inr s"
| "remove_in kg n (Suc k) s =
     (case s of (net, gs, inputs) \<Rightarrow>
        (case nth_opt (conns_in net n) (int k) of
           None \<Rightarrow> Inl TypeError
         | Some c \<Rightarrow>
             bindE (disconnect net (cfrom c) n)
               (\<lambda>net'. remove_in kg n k
                  (net',
                   (case gater c of
                      None \<Rightarrow> gs
                    | Some g \<Rightarrow> if kg \<and> g \<noteq> n then gs @ [g] else gs),
                   inputs @ [cfrom c]))))"

text \<open>The same walk over \<^verbatim>\<open>node.connections.out\<close> (lines 363-369).\<close>

fun remove_out :: "bool \<Rightarrow> nat \<Rightarrow> nat \<Rightarrow> network \<times> nat list \<times> nat list
    \<Rightarrow> error + (network \<times> nat list \<times> nat list)" where
  "remove_out kg n 0 s = Inr s"
| "remove_out kg n (Suc k) s =
     (case s of (net, gs, outputs) \<Rightarrow>
        (case nth_opt (conns_out net n) (int k) of
           None \<Rightarrow> Inl TypeError
         | Some c \<Rightarrow>
             bindE (disconnect net n (cto c))
               (\<lambda>net'. remove_out kg n k
                  (net',
                   (case gater c of
                      None \<Rightarrow> gs
                    | Some g \<Rightarrow> if kg \<and> g \<noteq> n then gs @ [g] else gs),
                   outputs @ [cto c]))))"

text \<open>
  Lines 372-380: every recorded input is connected to every recorded output it does
  not project to yet; the connections formed are collected.
\<close>

definition reconnect_step :: "nat \<times> nat \<Rightarrow> network \<times> conn_ref list
    \<Rightarrow> error + (network \<times> conn_ref list)" where
  "reconnect_step p s =
     (case s of (net, cs) \<Rightarrow>
        if isProjectingTo net (fst p) (snd p) then Inr (net, cs)
        else bindE (connect net (fst p) (snd p) None) (\<lambda>(net', r). Inr (net', cs @ [r])))"

text \<open>
  Lines 384-390: while gaters and new connections are left, the first gater gates a
  new connection drawn at random, which leaves the pool.
\<close>

fun regate :: "nat list \<Rightarrow> conn_ref list \<Rightarrow> network \<Rightarrow> rand \<Rightarrow> error + (network \<times> rand)" where
  "regate [] cs net rnd = Inr (net, rnd)"
| "regate (g # gs) cs net rnd =
     (if cs = [] then Inr (net, rnd)
      else if indexOf (nodes net) g = None then Inl NotPartOfNetwork
      else (case nth_opt cs (random_index (rhd rnd) (length cs)) of
              None \<Rightarrow> Inl TypeError
            | Some r \<Rightarrow>
                bindE (gate net g r)
                  (\<lambda>net'. regate gs (remove_nth (nat (random_index (rhd rnd) (length cs))) cs)
                             net' (rtl rnd))))"

text \<open>
  Lines 393-396: the connections the node gates are ungated from the last index down,
  the list being read again at every index. \<^verbatim>\<open>ungate(undefined)\<close> finds nothing in
  \<^verbatim>\<open>gates\<close> and raises.
\<close>

fun ungate_gated :: "nat \<Rightarrow> nat \<Rightarrow> network \<Rightarrow> error + network" where
  "ungate_gated n 0 net = Inr net"
| "ungate_gated n (Suc k) net =
     (case nth_opt (conns_gated net n) (int k) of
        None \<Rightarrow> Inl NotGated
      | Some r \<Rightarrow> bindE (ungate net r) (ungate_gated n k))"

text \<open>
  \<^verbatim>\<open>remove\<close> (lines 335-403). \<open>kg\<close> is \<^verbatim>\<open>mutation.SUB_NODE.keep_gates\<close>, a
  constant of the missing \<^verbatim>\<open>../methods/methods\<close>.
\<close>

definition remove :: "bool \<Rightarrow> network \<Rightarrow> nat \<Rightarrow> rand \<Rightarrow> error + (network \<times> rand)" where
  "remove kg net n rnd =
     (case indexOf (nodes net) n of
        None \<Rightarrow> Inl NodeDoesNotExist
      | Some index \<Rightarrow>
          bindE (disconnect net n n) (\<lambda>net1.
          bindE (remove_in kg n (length (conns_in net1 n)) (net1, [], [])) (\<lambda>(net2, gs2, inputs).
          bindE (remove_out kg n (length (conns_out net2 n)) (net2, gs2, [])) (\<lambda>(net3, gs3, outputs).
          bindE (foldE reconnect_step (List.product inputs outputs) (net3, [])) (\<lambda>(net4, cs).
          bindE (regate gs3 cs net4 rnd) (\<lambda>(net5, rnd').
          bindE (ungate_gated n (length (conns_gated net5 n)) net5) (\<lambda>net6.
          bindE (disconnect net6 n n) (\<lambda>net7.
            Inr (net7\<lparr> nodes := remove_nth index (nodes net7) \<rparr>, rnd')))))))))"

section \<open>Mutation\<close>

datatype mutation =
    ADD_NODE | SUB_NODE | ADD_CONN | SUB_CONN | MOD_WEIGHT | MOD_BIAS | MOD_ACTIVATION
  | ADD_SELF_CONN | SUB_SELF_CONN | ADD_GATE | SUB_GATE | ADD_BACK_CONN | SUB_BACK_CONN
  | SWAP_NODES

text \<open>
  The mutation methods are objects of the missing \<^verbatim>\<open>../methods/methods\<close>; the
  properties of them that the code reads are parameters: \<^verbatim>\<open>SUB_NODE.keep_gates\<close>,
  \<^verbatim>\<open>ADD_NODE.randomActivation\<close>, \<^verbatim>\<open>mutateOutput\<close> of \<^verbatim>\<open>MOD_ACTIVATION\<close> and of
  \<^verbatim>\<open>SWAP_NODES\<close>, \<^verbatim>\<open>min\<close> and \<^verbatim>\<open>max\<close> of \<^verbatim>\<open>MOD_WEIGHT\<close> and of \<^verbatim>\<open>MOD_BIAS\<close>,
  and the choice of a new squash (from the present one and a draw).
\<close>

record mutation_methods =
  keep_gates :: bool
  randomActivation :: bool
  activation_mutateOutput :: bool
  swap_mutateOutput :: bool
  weight_min :: real
  weight_max :: real
  bias_min :: real
  bias_max :: real
  squash_choice :: "int \<Rightarrow> real \<Rightarrow> int"

text \<open>
  What \<^verbatim>\<open>possible\<close> returns: \<^verbatim>\<open>false\<close> (or nothing, for a method the switch does not
  list) is \<open>None\<close>; otherwise an array of nodes, of pairs, of connections, or the
  empty array \<^verbatim>\<open>[]\<close> that three cases return (which is truthy). The second node of a
  pair is \<^verbatim>\<open>undefined\<close> when it was read outside the node list.
\<close>

datatype candidates =
    CNodes "nat list"
  | CPairs "(nat \<times> nat option) list"
  | CConns "conn_ref list"
  | CEmpty

text \<open>\<^verbatim>\<open>candidates.length ? candidates : false\<close>\<close>

definition nonempty :: "'a list \<Rightarrow> ('a list \<Rightarrow> candidates) \<Rightarrow> candidates option" where
  "nonempty xs C = (if xs = [] then None else Some (C xs))"

text \<open>\<^verbatim>\<open>indexOf\<close> as a number: \<open>-1\<close> when the node is not in the list.\<close>

definition indexOf_int :: "node list \<Rightarrow> nat \<Rightarrow> int" where
  "indexOf_int xs n = (case indexOf xs n of None \<Rightarrow> - 1 | Some k \<Rightarrow> int k)"

text \<open>
  One step of the loops of \<^verbatim>\<open>ADD_CONN\<close> and \<^verbatim>\<open>ADD_BACK_CONN\<close> (lines 426-432,
  461-467) at the indices \<open>(i, j)\<close>: \<^verbatim>\<open>if (!node1.isProjectingTo(node2))
  candidates.push([node1, node2])\<close>. A missing \<^verbatim>\<open>node1\<close> is a TypeError; a missing
  \<^verbatim>\<open>node2\<close> is projected to by nothing.
\<close>

definition pair_step :: "network \<Rightarrow> int \<times> int \<Rightarrow> (nat \<times> nat option) list
    \<Rightarrow> error + (nat \<times> nat option) list" where
  "pair_step net p cs =
     (case nth_opt (nodes net) (fst p) of
        None \<Rightarrow> Inl TypeError
      | Some node1 \<Rightarrow>
          (case nth_opt (nodes net) (snd p) of
             None \<Rightarrow> Inr (cs @ [(nid node1, None)])
           | Some node2 \<Rightarrow>
               if isProjectingTo net (nid node1) (nid node2) then Inr cs
               else Inr (cs @ [(nid node1, Some (nid node2))])))"

definition add_conn_indices :: "network \<Rightarrow> (int \<times> int) list" where
  "add_conn_indices net =
     concat (map (\<lambda>i. map (\<lambda>j. (i, j)) [max (i + 1) (input_size net) .. int (length (nodes net)) - 1])
                 [0 .. int (length (nodes net)) - output_size net - 1])"

definition add_back_conn_indices :: "network \<Rightarrow> (int \<times> int) list" where
  "add_back_conn_indices net =
     concat (map (\<lambda>i. map (\<lambda>j. (i, j)) [input_size net .. i - 1])
                 [input_size net .. int (length (nodes net)) - 1])"

text \<open>
  The test of \<^verbatim>\<open>SUB_CONN\<close> (line 438) and, with the order of the indices reversed, of
  \<^verbatim>\<open>SUB_BACK_CONN\<close> (line 472).
\<close>

definition not_disabling :: "network \<Rightarrow> connection \<Rightarrow> bool" where
  "not_disabling net c =
     (length (conns_out net (cfrom c)) > 1 \<and> length (conns_in net (cto c)) > 1)"

definition self_step :: "network \<Rightarrow> int \<Rightarrow> nat list \<Rightarrow> error + nat list" where
  "self_step net i cs =
     (case nth_opt (nodes net) i of
        None \<Rightarrow> Inl TypeError
      | Some x \<Rightarrow> Inr (if self_weight x = 0 then cs @ [nid x] else cs))"

definition all_refs :: "network \<Rightarrow> conn_ref list" where
  "all_refs net = map (\<lambda>c. CRef (cid c)) (connections net) @ map SRef (selfconns net)"

text \<open>\<^verbatim>\<open>possible\<close> (lines 418-488).\<close>

definition possible :: "mutation_methods \<Rightarrow> network \<Rightarrow> mutation \<Rightarrow> error + candidates option" where
  "possible M self method =
     (case method of
        SUB_NODE \<Rightarrow>
          Inr (nonempty (map nid (filter (\<lambda>x. ntype x \<noteq> Output \<and> ntype x \<noteq> Input) (nodes self)))
                 CNodes)
      | ADD_CONN \<Rightarrow>
          bindE (foldE (pair_step self) (add_conn_indices self) [])
            (\<lambda>cs. Inr (nonempty cs CPairs))
      | SUB_CONN \<Rightarrow>
          Inr (nonempty
                 (map (\<lambda>c. CRef (cid c))
                    (filter (\<lambda>c. not_disabling self c \<and>
                        indexOf_int (nodes self) (cto c) > indexOf_int (nodes self) (cfrom c))
                      (connections self)))
                 CConns)
      | MOD_ACTIVATION \<Rightarrow>
          Inr (if activation_mutateOutput M \<or>
                  int (length (nodes self)) > input_size self + output_size self
               then Some CEmpty else None)
      | ADD_SELF_CONN \<Rightarrow>
          bindE (foldE (self_step self) [input_size self .. int (length (nodes self)) - 1] [])
            (\<lambda>cs. Inr (nonempty cs CNodes))
      | SUB_SELF_CONN \<Rightarrow> Inr (if length (selfconns self) > 0 then Some CEmpty else None)
      | ADD_GATE \<Rightarrow>
          Inr (nonempty (filter (\<lambda>r. ref_gater self r = None) (all_refs self)) CConns)
      | SUB_GATE \<Rightarrow> Inr (if length (gates self) > 0 then Some CEmpty else None)
      | ADD_BACK_CONN \<Rightarrow>
          bindE (foldE (pair_step self) (add_back_conn_indices self) [])
            (\<lambda>cs. Inr (nonempty cs CPairs))
      | SUB_BACK_CONN \<Rightarrow>
          Inr (nonempty
                 (map (\<lambda>c. CRef (cid c))
                    (filter (\<lambda>c. not_disabling self c \<and>
                        indexOf_int (nodes self) (cfrom c) > indexOf_int (nodes self) (cto c))
                      (connections self)))
                 CConns)
      | SWAP_NODES \<Rightarrow>
          Inr (if (int (length (nodes self)) - 1) - input_size self
                    - (if swap_mutateOutput M then 0 else output_size self) < 2
               then None
               else
                 (let cs = map nid
                        (filter (if swap_mutateOutput M then (\<lambda>x. ntype x \<noteq> Input)
                                 else (\<lambda>x. ntype x \<noteq> Input \<and> ntype x \<noteq> Output))
                           (nodes self))
                  in if length cs \<ge> 2 then Some (CNodes cs) else None))
      | _ \<Rightarrow> Inr None)"

text \<open>
  Modelled from the spec: \<^verbatim>\<open>Node.mutate\<close> is in the missing \<^verbatim>\<open>./node\<close>. Section 4.3:
  \<^verbatim>\<open>MOD_BIAS\<close> perturbs the bias (here by a draw scaled into \<open>[min, max)\<close>),
  \<^verbatim>\<open>MOD_ACTIVATION\<close> reassigns the squash id. Each takes one draw.
\<close>

definition Node_mutate :: "mutation_methods \<Rightarrow> mutation \<Rightarrow> node \<Rightarrow> rand \<Rightarrow> node \<times> rand" where
  "Node_mutate M method x rnd =
     (case method of
        MOD_BIAS \<Rightarrow>
          (x\<lparr> bias := bias x + (rhd rnd * (bias_max M - bias_min M) + bias_min M) \<rparr>, rtl rnd)
      | MOD_ACTIVATION \<Rightarrow> (x\<lparr> squash := squash_choice M (squash x) (rhd rnd) \<rparr>, rtl rnd)
      | _ \<Rightarrow> (x, rnd))"

text \<open>\<^verbatim>\<open>xs.splice(start, 0, x)\<close>: a negative start counts from the end, and the
  position is clamped to the list.\<close>

definition splice_insert :: "int \<Rightarrow> 'a \<Rightarrow> 'a list \<Rightarrow> 'a list" where
  "splice_insert start x xs =
     (let k = (if start < 0 then max 0 (int (length xs) + start) else min start (int (length xs)))
      in take (nat k) xs @ [x] @ drop (nat k) xs)"

text \<open>\<^verbatim>\<open>_.sample(xs)\<close>: an empty array gives \<^verbatim>\<open>undefined\<close> and takes no draw.\<close>

definition sample :: "'a list \<Rightarrow> rand \<Rightarrow> 'a option \<times> rand" where
  "sample xs rnd =
     (if xs = [] then (None, rnd) else (nth_opt xs (random_index (rhd rnd) (length xs)), rtl rnd))"

text \<open>\<^verbatim>\<open>this.nodes[Math.floor(Math.random() * (this.nodes.length - this.input_size)
  + this.input_size)]\<close> (lines 566, 600).\<close>

definition random_non_input :: "network \<Rightarrow> real \<Rightarrow> int" where
  "random_non_input self r =
     \<lfloor>r * (real (length (nodes self)) - real_of_int (input_size self))
        + real_of_int (input_size self)\<rfloor>"

text \<open>The \<^verbatim>\<open>ADD_NODE\<close> case (lines 507-531).\<close>

definition mutate_ADD_NODE :: "mutation_methods \<Rightarrow> network \<Rightarrow> rand \<Rightarrow> error + (network \<times> rand)" where
  "mutate_ADD_NODE M self rnd =
     (case nth_opt (connections self) (random_index (rhd rnd) (length (connections self))) of
        None \<Rightarrow> Inl TypeError
      | Some c \<Rightarrow>
          bindE (disconnect self (cfrom c) (cto c)) (\<lambda>net1.
            let toIndex = indexOf_int (nodes net1) (cto c);
                n = next_node net1;
                nr = (if randomActivation M
                      then Node_mutate M MOD_ACTIVATION (new_Node n Hidden) (rtl rnd)
                      else (new_Node n Hidden, rtl rnd));
                minBound = min toIndex (int (length (nodes net1)) - output_size net1);
                net2 = net1\<lparr> nodes := splice_insert minBound (fst nr) (nodes net1),
                             next_node := Suc n \<rparr>
            in bindE (connect net2 (cfrom c) n None) (\<lambda>(net3, newConn1).
               bindE (connect net3 n (cto c) None) (\<lambda>(net4, newConn2).
                 (case (case find (\<lambda>x. cid x = cid c) (connections net4) of
                          None \<Rightarrow> None | Some c' \<Rightarrow> gater c') of
                    None \<Rightarrow> Inr (net4, snd nr)
                  | Some g \<Rightarrow>
                      bindE (gate net4 g (if rhd (snd nr) \<ge> 1 / 2 then newConn1 else newConn2))
                        (\<lambda>net5. Inr (net5, rtl (snd nr))))))))"

text \<open>The \<^verbatim>\<open>SUB_NODE\<close> case (lines 532-537); \<^verbatim>\<open>remove(undefined)\<close> finds no node.\<close>

definition mutate_SUB_NODE :: "mutation_methods \<Rightarrow> network \<Rightarrow> rand \<Rightarrow> error + (network \<times> rand)" where
  "mutate_SUB_NODE M self rnd =
     bindE (possible M self SUB_NODE) (\<lambda>p.
       case p of
         Some (CNodes cs) \<Rightarrow>
           (case sample cs rnd of
              (None, rnd') \<Rightarrow> Inl NodeDoesNotExist
            | (Some n, rnd') \<Rightarrow> remove (keep_gates M) self n rnd')
       | _ \<Rightarrow> Inr (self, rnd))"

text \<open>The \<^verbatim>\<open>ADD_CONN\<close> and \<^verbatim>\<open>ADD_BACK_CONN\<close> cases (lines 538-546, 613-621).\<close>

definition mutate_add_pair :: "mutation_methods \<Rightarrow> mutation \<Rightarrow> network \<Rightarrow> rand
    \<Rightarrow> error + (network \<times> rand)" where
  "mutate_add_pair M method self rnd =
     bindE (possible M self method) (\<lambda>p.
       case p of
         Some (CPairs cs) \<Rightarrow>
           (case nth_opt cs (random_index (rhd rnd) (length cs)) of
              Some (a, Some b) \<Rightarrow>
                bindE (connect self a b None) (\<lambda>(net, r). Inr (net, rtl rnd))
            | _ \<Rightarrow> Inl TypeError)
       | _ \<Rightarrow> Inr (self, rnd))"

text \<open>The \<^verbatim>\<open>SUB_CONN\<close> and \<^verbatim>\<open>SUB_BACK_CONN\<close> cases (lines 547-555, 622-630).\<close>

definition mutate_sub_conn :: "mutation_methods \<Rightarrow> mutation \<Rightarrow> network \<Rightarrow> rand
    \<Rightarrow> error + (network \<times> rand)" where
  "mutate_sub_conn M method self rnd =
     bindE (possible M self method) (\<lambda>p.
       case p of
         Some (CConns cs) \<Rightarrow>
           (case nth_opt cs (random_index (rhd rnd) (length cs)) of
              Some (CRef k) \<Rightarrow>
                (case find (\<lambda>c. cid c = k) (connections self) of
                   None \<Rightarrow> Inl TypeError
                 | Some c \<Rightarrow>
                     bindE (disconnect self (cfrom c) (cto c)) (\<lambda>net. Inr (net, rtl rnd)))
            | _ \<Rightarrow> Inl TypeError)
       | _ \<Rightarrow> Inr (self, rnd))"

text \<open>The \<^verbatim>\<open>MOD_WEIGHT\<close> case (lines 556-563).\<close>

definition mutate_MOD_WEIGHT :: "mutation_methods \<Rightarrow> network \<Rightarrow> rand \<Rightarrow> error + (network \<times> rand)" where
  "mutate_MOD_WEIGHT M self rnd =
     (let d = rhd (rtl rnd) * (weight_max M - weight_min M) + weight_min M
      in case nth_opt (all_refs self) (random_index (rhd rnd) (length (all_refs self))) of
           None \<Rightarrow> Inl TypeError
         | Some (CRef k) \<Rightarrow>
             Inr (update_conn k (\<lambda>c. c\<lparr> weight := weight c + d \<rparr>) self, rtl (rtl rnd))
         | Some (SRef n) \<Rightarrow>
             Inr (update_node n (\<lambda>x. x\<lparr> self_weight := self_weight x + d \<rparr>) self,
                  rtl (rtl rnd)))"

text \<open>The \<^verbatim>\<open>MOD_BIAS\<close> case (lines 564-569).\<close>

definition mutate_MOD_BIAS :: "mutation_methods \<Rightarrow> network \<Rightarrow> rand \<Rightarrow> error + (network \<times> rand)" where
  "mutate_MOD_BIAS M self rnd =
     (case nth_opt (nodes self) (random_non_input self (rhd rnd)) of
        None \<Rightarrow> Inl TypeError
      | Some x \<Rightarrow>
          (case Node_mutate M MOD_BIAS x (rtl rnd) of
             (x', rnd') \<Rightarrow>
               Inr (self\<lparr> nodes := (nodes self)[nat (random_non_input self (rhd rnd)) := x'] \<rparr>,
                    rnd')))"

text \<open>The \<^verbatim>\<open>MOD_ACTIVATION\<close> case (lines 570-578).\<close>

definition mutate_MOD_ACTIVATION :: "mutation_methods \<Rightarrow> network \<Rightarrow> rand
    \<Rightarrow> error + (network \<times> rand)" where
  "mutate_MOD_ACTIVATION M self rnd =
     bindE (possible M self MOD_ACTIVATION) (\<lambda>p.
       case p of
         None \<Rightarrow> Inr (self, rnd)
       | Some _ \<Rightarrow>
           (case sample (filter (if activation_mutateOutput M then (\<lambda>x. ntype x \<noteq> Input)
                                 else (\<lambda>x. ntype x \<noteq> Input \<and> ntype x \<noteq> Output))
                           (nodes self)) rnd of
              (None, rnd') \<Rightarrow> Inl TypeError
            | (Some x, rnd') \<Rightarrow>
                Inr (update_node (nid x) (\<lambda>y. fst (Node_mutate M MOD_ACTIVATION y rnd')) self,
                     snd (Node_mutate M MOD_ACTIVATION x rnd'))))"

text \<open>The \<^verbatim>\<open>ADD_SELF_CONN\<close> case (lines 579-587).\<close>

definition mutate_ADD_SELF_CONN :: "mutation_methods \<Rightarrow> network \<Rightarrow> rand
    \<Rightarrow> error + (network \<times> rand)" where
  "mutate_ADD_SELF_CONN M self rnd =
     bindE (possible M self ADD_SELF_CONN) (\<lambda>p.
       case p of
         Some (CNodes cs) \<Rightarrow>
           (case nth_opt cs (random_index (rhd rnd) (length cs)) of
              None \<Rightarrow> Inl TypeError
            | Some n \<Rightarrow> bindE (connect self n n None) (\<lambda>(net, r). Inr (net, rtl rnd)))
       | _ \<Rightarrow> Inr (self, rnd))"

text \<open>The \<^verbatim>\<open>SUB_SELF_CONN\<close> case (lines 588-595).\<close>

definition mutate_SUB_SELF_CONN :: "mutation_methods \<Rightarrow> network \<Rightarrow> rand
    \<Rightarrow> error + (network \<times> rand)" where
  "mutate_SUB_SELF_CONN M self rnd =
     bindE (possible M self SUB_SELF_CONN) (\<lambda>p.
       case p of
         None \<Rightarrow> Inr (self, rnd)
       | Some _ \<Rightarrow>
           (case nth_opt (selfconns self) (random_index (rhd rnd) (length (selfconns self))) of
              None \<Rightarrow> Inl TypeError
            | Some n \<Rightarrow> bindE (disconnect self n n) (\<lambda>net. Inr (net, rtl rnd))))"

text \<open>The \<^verbatim>\<open>ADD_GATE\<close> case (lines 596-607): \<^verbatim>\<open>gate\<close> looks the node up before it
  reads the connection.\<close>

definition mutate_ADD_GATE :: "mutation_methods \<Rightarrow> network \<Rightarrow> rand \<Rightarrow> error + (network \<times> rand)" where
  "mutate_ADD_GATE M self rnd =
     bindE (possible M self ADD_GATE) (\<lambda>p.
       case p of
         Some (CConns cs) \<Rightarrow>
           (case nth_opt (nodes self) (random_non_input self (rhd rnd)) of
              None \<Rightarrow> Inl NotPartOfNetwork
            | Some x \<Rightarrow>
                if indexOf (nodes self) (nid x) = None then Inl NotPartOfNetwork
                else
                  (case nth_opt cs (random_index (rhd (rtl rnd)) (length cs)) of
                     None \<Rightarrow> Inl TypeError
                   | Some r \<Rightarrow> bindE (gate self (nid x) r) (\<lambda>net. Inr (net, rtl (rtl rnd)))))
       | _ \<Rightarrow> Inr (self, rnd))"

text \<open>The \<^verbatim>\<open>SUB_GATE\<close> case (lines 608-612): \<^verbatim>\<open>ungate(undefined)\<close> finds nothing in
  \<^verbatim>\<open>gates\<close>.\<close>

definition mutate_SUB_GATE :: "mutation_methods \<Rightarrow> network \<Rightarrow> rand \<Rightarrow> error + (network \<times> rand)" where
  "mutate_SUB_GATE M self rnd =
     bindE (possible M self SUB_GATE) (\<lambda>p.
       case p of
         None \<Rightarrow> Inr (self, rnd)
       | Some _ \<Rightarrow>
           (case nth_opt (gates self) (random_index (rhd rnd) (length (gates self))) of
              None \<Rightarrow> Inl NotGated
            | Some r \<Rightarrow> bindE (ungate self r) (\<lambda>net. Inr (net, rtl rnd))))"

text \<open>The \<^verbatim>\<open>SWAP_NODES\<close> case (lines 631-653).\<close>

definition mutate_SWAP_NODES :: "mutation_methods \<Rightarrow> network \<Rightarrow> rand \<Rightarrow> error + (network \<times> rand)" where
  "mutate_SWAP_NODES M self rnd =
     bindE (possible M self SWAP_NODES) (\<lambda>p.
       case p of
         Some (CNodes cs) \<Rightarrow>
           (case sample cs rnd of
              (None, rnd1) \<Rightarrow> Inl TypeError
            | (Some n1, rnd1) \<Rightarrow>
                (case sample (filter (\<lambda>n. n \<noteq> n1) cs) rnd1 of
                   (None, rnd2) \<Rightarrow> Inl TypeError
                 | (Some n2, rnd2) \<Rightarrow>
                     (case (get_node self n1, get_node self n2) of
                        (Some x1, Some x2) \<Rightarrow>
                          Inr (update_node n2 (\<lambda>x. x\<lparr> bias := bias x1, squash := squash x1 \<rparr>)
                                (update_node n1 (\<lambda>x. x\<lparr> bias := bias x2, squash := squash x2 \<rparr>)
                                   self), rnd2)
                      | _ \<Rightarrow> Inl TypeError)))
       | _ \<Rightarrow> Inr (self, rnd))"

text \<open>
  \<^verbatim>\<open>mutate\<close> (lines 502-655). The argument is a method, \<^verbatim>\<open>undefined\<close> (an error)
  or \<^verbatim>\<open>null\<close> (which the population manager passes when a cap is exceeded; no case
  of the switch matches it).
\<close>

datatype method_arg = MUndefined | MNull | Method mutation

definition mutate :: "mutation_methods \<Rightarrow> network \<Rightarrow> method_arg \<Rightarrow> rand
    \<Rightarrow> error + (network \<times> rand)" where
  "mutate M self method rnd =
     (case method of
        MUndefined \<Rightarrow> Inl NoMutateMethod
      | MNull \<Rightarrow> Inr (self, rnd)
      | Method m \<Rightarrow>
          (case m of
             ADD_NODE \<Rightarrow> mutate_ADD_NODE M self rnd
           | SUB_NODE \<Rightarrow> mutate_SUB_NODE M self rnd
           | ADD_CONN \<Rightarrow> mutate_add_pair M ADD_CONN self rnd
           | SUB_CONN \<Rightarrow> mutate_sub_conn M SUB_CONN self rnd
           | MOD_WEIGHT \<Rightarrow> mutate_MOD_WEIGHT M self rnd
           | MOD_BIAS \<Rightarrow> mutate_MOD_BIAS M self rnd
           | MOD_ACTIVATION \<Rightarrow> mutate_MOD_ACTIVATION M self rnd
           | ADD_SELF_CONN \<Rightarrow> mutate_ADD_SELF_CONN M self rnd
           | SUB_SELF_CONN \<Rightarrow> mutate_SUB_SELF_CONN M self rnd
           | ADD_GATE \<Rightarrow> mutate_ADD_GATE M self rnd
           | SUB_GATE \<Rightarrow> mutate_SUB_GATE M self rnd
           | ADD_BACK_CONN \<Rightarrow> mutate_add_pair M ADD_BACK_CONN self rnd
           | SUB_BACK_CONN \<Rightarrow> mutate_sub_conn M SUB_BACK_CONN self rnd
           | SWAP_NODES \<Rightarrow> mutate_SWAP_NODES M self rnd))"

section \<open>Activation and the flat export\<close>

text \<open>
  Modelled from the spec: \<^verbatim>\<open>Node.activate\<close> is in the missing \<^verbatim>\<open>./node\<close>. Section
  4.1: a node that is given an input takes it as its activation; any other node
  computes \<open>state = bias + \<Sum> weight * from.activation * gain + self.weight *
  previous state * gain\<close> over its incoming connections, where the gain is the
  activation of the gater (1 without one), and \<open>activation = squash(state) * mask\<close>.
  The registry of squash functions, selected by id, is the parameter \<open>F\<close>. The
  traces kept for training are not modelled.
\<close>

definition gain :: "network \<Rightarrow> nat option \<Rightarrow> real" where
  "gain net g =
     (case g of
        None \<Rightarrow> 1
      | Some n \<Rightarrow> (case get_node net n of None \<Rightarrow> 1 | Some x \<Rightarrow> activation x))"

definition activation_of :: "network \<Rightarrow> nat \<Rightarrow> real" where
  "activation_of net n = (case get_node net n of None \<Rightarrow> 0 | Some x \<Rightarrow> activation x)"

definition Node_activate :: "(int \<Rightarrow> real \<Rightarrow> real) \<Rightarrow> network \<Rightarrow> nat \<Rightarrow> real option
    \<Rightarrow> network \<times> real" where
  "Node_activate F net n inp =
     (case inp of
        Some v \<Rightarrow> (update_node n (\<lambda>x. x\<lparr> activation := v \<rparr>) net, v)
      | None \<Rightarrow>
          (case get_node net n of
             None \<Rightarrow> (net, 0)
           | Some x \<Rightarrow>
               (let s = bias x
                      + sum_list (map (\<lambda>c. weight c * activation_of net (cfrom c) * gain net (gater c))
                                    (conns_in net n))
                      + self_weight x * state x * gain net (self_gater x);
                    a = F (squash x) s * mask x
                in (update_node n (\<lambda>y. y\<lparr> state := s, activation := a \<rparr>) net, a))))"

text \<open>
  One turn of \<^verbatim>\<open>this.nodes.forEach((node, node_index) => ...)\<close> of \<^verbatim>\<open>activate\<close>
  (lines 100-110). The state is the network, the source of draws and the output so far.
  \<^verbatim>\<open>input[node_index]\<close> beyond the end of \<^verbatim>\<open>input\<close> is \<^verbatim>\<open>undefined\<close>; of an
  \<^verbatim>\<open>input\<close> that is itself \<^verbatim>\<open>undefined\<close> it is a TypeError.
\<close>

definition activate_step :: "(int \<Rightarrow> real \<Rightarrow> real) \<Rightarrow> real list option \<Rightarrow> bool \<Rightarrow> nat
    \<Rightarrow> network \<times> rand \<times> real list \<Rightarrow> error + (network \<times> rand \<times> real list)" where
  "activate_step F inp training node_index s =
     (case s of (net, rnd, out) \<Rightarrow>
        (case nth_opt (nodes net) (int node_index) of
           None \<Rightarrow> Inl TypeError
         | Some x \<Rightarrow>
             if ntype x = Input then
               (case inp of
                  None \<Rightarrow> Inl TypeError
                | Some xs \<Rightarrow>
                    Inr (fst (Node_activate F net (nid x) (nth_opt xs (int node_index))), rnd, out))
             else if ntype x = Output then
               (case Node_activate F net (nid x) None of
                  (net', a) \<Rightarrow> Inr (net', rnd, out @ [a]))
             else if training then
               Inr (fst (Node_activate F
                      (update_node (nid x)
                         (\<lambda>y. y\<lparr> mask := (if rhd rnd < dropout net then 0 else 1) \<rparr>) net)
                      (nid x) None), rtl rnd, out)
             else Inr (fst (Node_activate F net (nid x) None), rnd, out)))"

text \<open>\<^verbatim>\<open>activate\<close> (lines 96-113).\<close>

definition activate :: "(int \<Rightarrow> real \<Rightarrow> real) \<Rightarrow> network \<Rightarrow> real list option \<Rightarrow> bool \<Rightarrow> rand
    \<Rightarrow> error + (network \<times> rand \<times> real list)" where
  "activate F self inp training rnd =
     foldE (activate_step F inp training) [0 ..< length (nodes self)] (self, rnd, [])"

definition identity_squash :: "int \<Rightarrow> real \<Rightarrow> real" where
  "identity_squash k x = x"

text \<open>
  \<^verbatim>\<open>serialize\<close> (lines 1452-1494). The first loop numbers the nodes (a node object
  is in the list once, so \<^verbatim>\<open>node.index\<close> is its position; for a gater that is not in
  the list the model writes \<open>-1\<close>). In the second loop, the callback of
  \<^verbatim>\<open>_.times(node.connections.in.length, ...)\<close> reads
  \<^verbatim>\<open>node.connectionections.in\<close>, a property of \<^verbatim>\<open>undefined\<close>: it raises a TypeError
  as soon as it runs, that is when the node has an incoming connection.
\<close>

definition serialize_node :: "network \<Rightarrow> int \<Rightarrow> real list \<Rightarrow> error + real list" where
  "serialize_node self node_index conns =
     (case nth_opt (nodes self) node_index of
        None \<Rightarrow> Inl TypeError
      | Some x \<Rightarrow>
          if length (conns_in self (nid x)) > 0 then Inl TypeError
          else Inr (conns @
                 [real_of_int node_index, bias x, real_of_int (squash x), self_weight x,
                  (case self_gater x of
                     None \<Rightarrow> - 1
                   | Some g \<Rightarrow> real_of_int (indexOf_int (nodes self) g)),
                  - 2]))"

definition serialize :: "network \<Rightarrow> error + (real list \<times> real list \<times> real list)" where
  "serialize self =
     bindE (foldE (serialize_node self) [input_size self .. int (length (nodes self)) - 1]
              [real_of_int (input_size self), real_of_int (output_size self)])
       (\<lambda>conns. Inr (map activation (nodes self), map state (nodes self), conns))"

text \<open>
  What section 6 of the specification asks of the flat export, written from its words:
  after the two sizes, for each node behind the inputs its index, bias, squash id,
  self-weight and self-gater index, one triple (from-index, weight, gater-index) per
  incoming connection, and the stop token \<open>-2\<close>.
\<close>

definition spec_node_stream :: "network \<Rightarrow> nat \<Rightarrow> real list" where
  "spec_node_stream self k =
     (let x = nodes self ! k in
      [real k, bias x, real_of_int (squash x), self_weight x,
       (case self_gater x of None \<Rightarrow> - 1 | Some g \<Rightarrow> real_of_int (indexOf_int (nodes self) g))]
      @ concat (map (\<lambda>c. [real_of_int (indexOf_int (nodes self) (cfrom c)), weight c,
                           (case gater c of None \<Rightarrow> - 1
                            | Some g \<Rightarrow> real_of_int (indexOf_int (nodes self) g))])
                  (conns_in self (nid x)))
      @ [- 2])"

definition spec_serialize :: "network \<Rightarrow> real list \<times> real list \<times> real list" where
  "spec_serialize self =
     (map activation (nodes self), map state (nodes self),
      [real_of_int (input_size self), real_of_int (output_size self)]
      @ concat (map (spec_node_stream self) [nat (input_size self) ..< length (nodes self)]))"

section \<open>Crossover\<close>

text \<open>
  A JavaScript object used as a dictionary with numeric keys: its own properties in
  the order of creation. \<^verbatim>\<open>Object.keys\<close> lists the keys that are array indices (below
  \<open>2^32 - 1\<close>) first, in ascending order, then the others in the order of creation.
\<close>

type_synonym 'v js_object = "(nat \<times> 'v) list"

definition obj_set :: "nat \<Rightarrow> 'v \<Rightarrow> 'v js_object \<Rightarrow> 'v js_object" where
  "obj_set k v ob =
     (if k \<in> set (map fst ob) then map (\<lambda>p. if fst p = k then (k, v) else p) ob
      else ob @ [(k, v)])"

definition obj_get :: "'v js_object \<Rightarrow> nat \<Rightarrow> 'v option" where
  "obj_get ob k = map_of ob k"

definition obj_keys :: "'v js_object \<Rightarrow> nat list" where
  "obj_keys ob =
     sort (filter (\<lambda>k. k < 4294967295) (map fst ob))
     @ filter (\<lambda>k. \<not> k < 4294967295) (map fst ob)"

text \<open>
  The connection gene of lines 1690-1695: weight, index of the \<open>from\<close> node, index of
  the \<open>to\<close> node, index of the gater or \<open>-1\<close>. The indices are the properties
  \<^verbatim>\<open>index\<close> that lines 1647-1653 set to the positions in the node list; a node that
  is referenced but is not in the list is outside the model (its index reads \<open>-1\<close>,
  the weight of its self-connection 0).
\<close>

record gene =
  g_weight :: real
  g_from :: int
  g_to :: int
  g_gater :: int

definition gater_index :: "network \<Rightarrow> nat option \<Rightarrow> int" where
  "gater_index net g = (case g of None \<Rightarrow> - 1 | Some n \<Rightarrow> indexOf_int (nodes net) n)"

definition conn_gene :: "network \<Rightarrow> connection \<Rightarrow> gene" where
  "conn_gene net c =
     \<lparr> g_weight = weight c, g_from = indexOf_int (nodes net) (cfrom c),
       g_to = indexOf_int (nodes net) (cto c), g_gater = gater_index net (gater c) \<rparr>"

definition self_gene :: "network \<Rightarrow> nat \<Rightarrow> gene" where
  "self_gene net n =
     \<lparr> g_weight = (case get_node net n of None \<Rightarrow> 0 | Some x \<Rightarrow> self_weight x),
       g_from = indexOf_int (nodes net) n, g_to = indexOf_int (nodes net) n,
       g_gater = gater_index net (case get_node net n of None \<Rightarrow> None | Some x \<Rightarrow> self_gater x) \<rparr>"

text \<open>
  Lines 1684-1733: the genes of a parent, the ordinary connections first, keyed by
  \<^verbatim>\<open>Connection.innovationID(from, to)\<close>. That function is in the missing
  \<^verbatim>\<open>./connection\<close>; it is the parameter \<open>iid\<close>.
\<close>

definition genes_of :: "network \<Rightarrow> gene list" where
  "genes_of net = map (conn_gene net) (connections net) @ map (self_gene net) (selfconns net)"

definition conns_object :: "(int \<Rightarrow> int \<Rightarrow> nat) \<Rightarrow> network \<Rightarrow> gene option js_object" where
  "conns_object iid net =
     fold (\<lambda>g ob. obj_set (iid (g_from g) (g_to g)) (Some g) ob) (genes_of net) []"

text \<open>\<^verbatim>\<open>network.score || 0\<close>\<close>

definition score_or_0 :: "network \<Rightarrow> real" where
  "score_or_0 net = (case score net of None \<Rightarrow> 0 | Some s \<Rightarrow> s)"

text \<open>
  Line 1635: \<^verbatim>\<open>Math.floor(Math.random() * (max - min + 1) + min)\<close>, the size of the
  offspring of two parents that count as equally fit. The product and the sum are
  doubles.
\<close>

definition drawn_size :: "int \<Rightarrow> int \<Rightarrow> real \<Rightarrow> int" where
  "drawn_size len1 len2 r =
     \<lfloor>double (double (r * real_of_int (max len1 len2 - min len1 len2 + 1))
              + real_of_int (min len1 len2))\<rfloor>"

text \<open>
  Lines 1656-1681: the node of the offspring at index \<open>i\<close>. The state is the list of
  nodes so far, the node counter and the source of draws.
\<close>

definition offspring_node :: "network \<Rightarrow> network \<Rightarrow> int \<Rightarrow> int \<Rightarrow> nat
    \<Rightarrow> node list \<times> nat \<times> rand \<Rightarrow> error + (node list \<times> nat \<times> rand)" where
  "offspring_node network1 network2 sz outputSize i s =
     (case s of (ns, next, rnd) \<Rightarrow>
        (let r = rhd rnd;
             chosen =
               (if int i < sz - outputSize then
                  (let node = (if r \<ge> 1 / 2 then nth_opt (nodes network1) (int i)
                               else nth_opt (nodes network2) (int i));
                       other = (if r < 1 / 2 then nth_opt (nodes network1) (int i)
                                else nth_opt (nodes network2) (int i))
                   in (case node of
                         None \<Rightarrow> other
                       | Some x \<Rightarrow> if ntype x = Output then other else node))
                else if r \<ge> 1 / 2
                  then nth_opt (nodes network1) (int (length (nodes network1)) + int i - sz)
                  else nth_opt (nodes network2) (int (length (nodes network2)) + int i - sz))
         in (case chosen of
               None \<Rightarrow> Inl TypeError
             | Some x \<Rightarrow>
                 Inr (ns @ [(new_Node next (ntype x))\<lparr> bias := bias x, squash := squash x \<rparr>],
                      Suc next, rtl rnd))))"

text \<open>
  Lines 1739-1750: the keys of the first parent from the last to the first. A key that
  the second parent has too is a common gene, taken from either parent by a draw, and
  marked as used in the second parent's object.
\<close>

definition common_step :: "gene option js_object \<Rightarrow> bool \<Rightarrow> nat
    \<Rightarrow> gene list \<times> gene option js_object \<times> rand \<Rightarrow> gene list \<times> gene option js_object \<times> rand" where
  "common_step n1conns keep1 k s =
     (case s of (conns, n2conns, rnd) \<Rightarrow>
        (case obj_get n2conns k of
           Some (Some g2) \<Rightarrow>
             ((case (if rhd rnd \<ge> 1 / 2 then obj_get n1conns k else Some (Some g2)) of
                 Some (Some g) \<Rightarrow> conns @ [g]
               | _ \<Rightarrow> conns),
              obj_set k None n2conns, rtl rnd)
         | _ \<Rightarrow>
             ((if keep1 then (case obj_get n1conns k of Some (Some g) \<Rightarrow> conns @ [g] | _ \<Rightarrow> conns)
               else conns),
              n2conns, rnd)))"

text \<open>Lines 1753-1759: the genes of the second parent that were not used.\<close>

definition excess_genes :: "gene option js_object \<Rightarrow> nat list \<Rightarrow> gene list" where
  "excess_genes n2conns keys2 =
     concat (map (\<lambda>k. case obj_get n2conns k of Some (Some g) \<Rightarrow> [g] | _ \<Rightarrow> []) keys2)"

text \<open>
  Lines 1762-1775: a gene whose two indices are below the size becomes a connection
  of the offspring, with the gene's weight, gated if the gater's index is below the
  size too.
\<close>

definition set_ref_weight :: "conn_ref \<Rightarrow> real \<Rightarrow> network \<Rightarrow> network" where
  "set_ref_weight r w net = (case r of
      CRef c \<Rightarrow> update_conn c (\<lambda>x. x\<lparr> weight := w \<rparr>) net
    | SRef n \<Rightarrow> update_node n (\<lambda>x. x\<lparr> self_weight := w \<rparr>) net)"

definition add_gene :: "int \<Rightarrow> gene \<Rightarrow> network \<Rightarrow> error + network" where
  "add_gene sz connData offspring =
     (if g_to connData < sz \<and> g_from connData < sz then
        (case (nth_opt (nodes offspring) (g_from connData),
               nth_opt (nodes offspring) (g_to connData)) of
           (Some from, Some to) \<Rightarrow>
             bindE (connect offspring (nid from) (nid to) None) (\<lambda>(net, conn).
               let net' = set_ref_weight conn (g_weight connData) net
               in if g_gater connData \<noteq> - 1 \<and> g_gater connData < sz then
                    (case nth_opt (nodes net') (g_gater connData) of
                       None \<Rightarrow> Inl NotPartOfNetwork
                     | Some x \<Rightarrow> gate net' (nid x) conn)
                  else Inr net')
         | _ \<Rightarrow> Inl TypeError)
      else Inr offspring)"

text \<open>\<^verbatim>\<open>Network.cross_over\<close> (lines 1616-1778).\<close>

definition cross_over :: "(int \<Rightarrow> int \<Rightarrow> nat) \<Rightarrow> network \<Rightarrow> network \<Rightarrow> bool \<Rightarrow> rand
    \<Rightarrow> error + (network \<times> rand)" where
  "cross_over iid network1 network2 equal rnd =
     (if input network1 \<noteq> input network2 \<or> output network1 \<noteq> output network2
      then Inl SizeMismatch
      else
        bindE (Network (Some (input network1)) (Some (output network1)) rnd) (\<lambda>(fresh, rnd0).
          let score1 = score_or_0 network1;
              score2 = score_or_0 network2;
              len1 = int (length (nodes network1));
              len2 = int (length (nodes network2));
              sz = (if equal \<or> score1 = score2 then drawn_size len1 len2 (rhd rnd0)
                    else if score1 > score2 then len1 else len2);
              rnd1 = (if equal \<or> score1 = score2 then rtl rnd0 else rnd0)
          in bindE (foldE (offspring_node network1 network2 sz (output network1))
                      [0 ..< nat sz] ([], next_node fresh, rnd1)) (\<lambda>(ns, next, rnd2).
               let offspring = fresh\<lparr> connections := [], nodes := ns, next_node := next \<rparr>;
                   n1conns = conns_object iid network1;
                   n2conns = conns_object iid network2;
                   keys1 = obj_keys n1conns;
                   keys2 = obj_keys n2conns
               in (case fold (common_step n1conns (score1 \<ge> score2 \<or> equal)) (rev keys1)
                          ([], n2conns, rnd2) of
                     (common, n2conns', rnd3) \<Rightarrow>
                       bindE (foldE (add_gene sz)
                                (common @ (if score2 \<ge> score1 \<or> equal
                                           then excess_genes n2conns' keys2 else []))
                                offspring)
                         (\<lambda>net. Inr (net, rnd3))))))"

text \<open>
  The connection set of C5: the triples (index of \<open>from\<close>, index of \<open>to\<close>, weight) of
  the ordinary connections and of the self-connections.
\<close>

definition conn_set :: "network \<Rightarrow> (int \<times> int \<times> real) set" where
  "conn_set net = (\<lambda>g. (g_from g, g_to g, g_weight g)) ` set (genes_of net)"

text \<open>An innovation id for the examples: Cantor's pairing, \<open>(a + b)(a + b + 1) / 2 + b\<close>.\<close>

definition example_iid :: "int \<Rightarrow> int \<Rightarrow> nat" where
  "example_iid a b = nat ((a + b) * (a + b + 1) div 2 + b)"

section \<open>JSON\<close>

text \<open>
  Modelled from the spec: \<^verbatim>\<open>Node.to_JSON\<close>, \<^verbatim>\<open>Node.from_JSON\<close> and
  \<^verbatim>\<open>Connection.to_JSON\<close> are in the missing \<^verbatim>\<open>./node\<close> and \<^verbatim>\<open>./connection\<close>. The
  JSON of a node holds its bias, kind, squash id and mask; that of a connection its
  weight.
\<close>

record node_json =
  j_bias :: real
  j_type :: node_type
  j_squash :: int
  j_mask :: real

record connection_json =
  j_weight :: real
  j_from :: int
  j_to :: int
  j_gater :: "int option"

record network_json =
  j_nodes :: "node_json list"
  j_connections :: "connection_json list"
  j_input_size :: int
  j_output_size :: int
  j_dropout :: real
  j_input :: int
  j_output :: int

definition Node_to_JSON :: "node \<Rightarrow> node_json" where
  "Node_to_JSON n = \<lparr> j_bias = bias n, j_type = ntype n, j_squash = squash n, j_mask = mask n \<rparr>"

definition Node_from_JSON :: "nat \<Rightarrow> node_json \<Rightarrow> node" where
  "Node_from_JSON k j =
     (new_Node k (j_type j))\<lparr> bias := j_bias j, squash := j_squash j, mask := j_mask j \<rparr>"

definition gater_json :: "network \<Rightarrow> nat option \<Rightarrow> int option" where
  "gater_json net g = (case g of None \<Rightarrow> None | Some n \<Rightarrow> Some (indexOf_int (nodes net) n))"

text \<open>
  \<^verbatim>\<open>to_JSON\<close> (lines 1066-1112): the nodes; then the self-connections of the nodes
  whose self-weight is not 0, in the order of the nodes; then the ordinary connections.
  Both \<^verbatim>\<open>input_size\<close> and \<^verbatim>\<open>input\<close> of the JSON are \<^verbatim>\<open>this.input_size\<close>.
\<close>

definition to_JSON :: "network \<Rightarrow> network_json" where
  "to_JSON self =
     \<lparr> j_nodes = map Node_to_JSON (nodes self),
       j_connections =
         concat (map (\<lambda>(i, n). if self_weight n \<noteq> 0
                        then [\<lparr> j_weight = self_weight n, j_from = int i, j_to = int i,
                                j_gater = gater_json self (self_gater n) \<rparr>]
                        else [])
                   (enumerate 0 (nodes self)))
         @ map (\<lambda>c. \<lparr> j_weight = weight c, j_from = indexOf_int (nodes self) (cfrom c),
                       j_to = indexOf_int (nodes self) (cto c),
                       j_gater = gater_json self (gater c) \<rparr>)
             (connections self),
       j_input_size = input_size self, j_output_size = output_size self,
       j_dropout = dropout self,
       j_input = input_size self, j_output = output_size self \<rparr>"

text \<open>\<^verbatim>\<open>Network.from_JSON\<close> (lines 1510-1529).\<close>

definition add_json_connection :: "connection_json \<Rightarrow> network \<Rightarrow> error + network" where
  "add_json_connection jc net =
     (case (nth_opt (nodes net) (j_from jc), nth_opt (nodes net) (j_to jc)) of
        (Some from, Some to) \<Rightarrow>
          bindE (connect net (nid from) (nid to) None) (\<lambda>(net1, conn).
            let net2 = set_ref_weight conn (j_weight jc) net1
            in (case j_gater jc of
                  None \<Rightarrow> Inr net2
                | Some g \<Rightarrow>
                    (case nth_opt (nodes net2) g of
                       None \<Rightarrow> Inl NotPartOfNetwork
                     | Some x \<Rightarrow> gate net2 (nid x) conn)))
      | _ \<Rightarrow> Inl TypeError)"

definition from_JSON :: "network_json \<Rightarrow> rand \<Rightarrow> error + (network \<times> rand)" where
  "from_JSON json rnd =
     bindE (Network (Some (j_input json)) (Some (j_output json)) rnd) (\<lambda>(net, rnd').
       let ns = map (\<lambda>(k, j). Node_from_JSON (next_node net + k) j) (enumerate 0 (j_nodes json));
           net1 = net\<lparr> dropout := j_dropout json, nodes := ns, connections := [],
                      next_node := next_node net + length ns \<rparr>
       in bindE (foldE add_json_connection (j_connections json) net1) (\<lambda>net2.
            Inr (net2, rnd')))"

section \<open>The population manager\<close>

text \<open>
  Modelled from the spec: the selection methods are in the missing
  \<^verbatim>\<open>../methods/methods\<close>; section 4.5 of the specification gives \<^verbatim>\<open>POWER\<close> a power
  and \<^verbatim>\<open>TOURNAMENT\<close> a size and a probability. \<^verbatim>\<open>getParent\<close> switches on the name,
  without a default case: \<open>OTHER_SELECTION\<close> is any other name.
\<close>

datatype selection = POWER real | FITNESS_PROPORTIONATE | TOURNAMENT int real | OTHER_SELECTION

text \<open>
  \<^verbatim>\<open>Neat\<close> (lines 1826-2256): the fields that \<^verbatim>\<open>evolve\<close> and the functions it calls
  read. The fitness function
  is a parameter: \<open>fitness\<close> is its result for a genome, \<open>fitness_scores\<close> the scores
  it leaves on the genomes when it is called with the whole population
  (\<^verbatim>\<open>fitnessPopulation\<close>). \<open>dataset\<close> is the argument of the constructor, if it is an
  array. \<open>None\<close> for a cap is \<^verbatim>\<open>Infinity\<close>. Genomes are values: where the source has
  the same object several times in the array, the list has equal entries.
\<close>

record 'd neat =
  generation :: int
  popsize :: int
  elitism :: int
  provenance :: int
  equal' :: bool
  clear :: bool
  mutationRate :: real
  mutationAmount :: int
  fitnessPopulation :: bool
  fitness :: "'d \<Rightarrow> network \<Rightarrow> real"
  fitness_scores :: "'d \<Rightarrow> network list \<Rightarrow> real option list"
  selection :: selection
  mutation :: "mutation list"
  efficientMutation :: bool
  template :: network
  maxNodes :: "nat option"
  maxConns :: "nat option"
  maxGates :: "nat option"
  population :: "network list"
  dataset :: "'d option"

text \<open>
  A score is a number or \<^verbatim>\<open>undefined\<close>. Arithmetic with \<^verbatim>\<open>undefined\<close> gives
  \<^verbatim>\<open>NaN\<close>, and every comparison with \<^verbatim>\<open>NaN\<close> is false: \<open>None\<close> stands for both.
\<close>

definition num_add :: "real option \<Rightarrow> real option \<Rightarrow> real option" where
  "num_add a b = (case (a, b) of (Some x, Some y) \<Rightarrow> Some (x + y) | _ \<Rightarrow> None)"

definition num_less :: "real option \<Rightarrow> real option \<Rightarrow> bool" where
  "num_less a b = (case (a, b) of (Some x, Some y) \<Rightarrow> x < y | _ \<Rightarrow> False)"

text \<open>
  \<^verbatim>\<open>sort\<close> (lines 2192-2196): \<^verbatim>\<open>Array.prototype.sort\<close> with the comparator
  \<^verbatim>\<open>b.score - a.score\<close>. The sort is stable; it is written as an insertion sort,
  in which an element goes behind the elements that the comparator puts before it.
\<close>

fun insert_by :: "('a \<Rightarrow> 'a \<Rightarrow> bool) \<Rightarrow> 'a \<Rightarrow> 'a list \<Rightarrow> 'a list" where
  "insert_by after x [] = [x]"
| "insert_by after x (y # ys) = (if after x y then y # insert_by after x ys else x # y # ys)"

definition sort_by :: "('a \<Rightarrow> 'a \<Rightarrow> bool) \<Rightarrow> 'a list \<Rightarrow> 'a list" where
  "sort_by after xs = foldr (insert_by after) xs []"

definition comes_after :: "network \<Rightarrow> network \<Rightarrow> bool" where
  "comes_after a b = num_less (score a) (score b)"

definition sort_population :: "'d neat \<Rightarrow> 'd neat" where
  "sort_population self = self\<lparr> population := sort_by comes_after (population self) \<rparr>"

text \<open>
  \<^verbatim>\<open>Math.pow(r, p)\<close> for a draw \<open>0 \<le> r < 1\<close>: the double nearest to the power;
  \<open>None\<close> is \<^verbatim>\<open>Infinity\<close>, and an array has nothing at the index \<^verbatim>\<open>Infinity\<close> or
  \<^verbatim>\<open>NaN\<close>.
\<close>

definition pow :: "real \<Rightarrow> real \<Rightarrow> real option" where
  "pow r p =
     (if r = 0 then (if p = 0 then Some 1 else if 0 < p then Some 0 else None)
      else Some (double (r powr p)))"

text \<open>The two loops of \<^verbatim>\<open>FITNESS_PROPORTIONATE\<close> (lines 2090-2105).\<close>

definition fitness_totals :: "network list \<Rightarrow> real \<times> real option" where
  "fitness_totals pop =
     fold (\<lambda>g (minimalFitness, totalFitness).
             ((case score g of
                 None \<Rightarrow> minimalFitness
               | Some s \<Rightarrow> if s < minimalFitness then s else minimalFitness),
              num_add totalFitness (score g)))
       pop (0, Some 0)"

fun proportionate_pick :: "real option \<Rightarrow> real \<Rightarrow> real option \<Rightarrow> network list \<Rightarrow> network option" where
  "proportionate_pick random minimalFitness v [] = None"
| "proportionate_pick random minimalFitness v (genome # rest) =
     (let v' = num_add v (num_add (score genome) (Some minimalFitness))
      in if num_less random v' then Some genome
         else proportionate_pick random minimalFitness v' rest)"

text \<open>The last loop of \<^verbatim>\<open>TOURNAMENT\<close> (lines 2127-2128), over the sorted tournament.\<close>

fun tournament_pick :: "real \<Rightarrow> 'a list \<Rightarrow> rand \<Rightarrow> 'a option \<times> rand" where
  "tournament_pick probability [] rnd = (None, rnd)"
| "tournament_pick probability (x # xs) rnd =
     (if rhd rnd < probability \<or> xs = [] then (Some x, rtl rnd)
      else tournament_pick probability xs (rtl rnd))"

text \<open>
  \<^verbatim>\<open>getParent\<close> (lines 2075-2131). The result is the genome returned, or \<open>None\<close> for
  \<^verbatim>\<open>undefined\<close>, with the manager (\<^verbatim>\<open>POWER\<close> may sort the population). The size of a
  tournament is an integer. The individuals of a tournament are \<^verbatim>\<open>undefined\<close> when the
  population is empty; \<^verbatim>\<open>Array.prototype.sort\<close> puts \<^verbatim>\<open>undefined\<close> elements at the end
  without calling the comparator.
\<close>

definition sort_individuals :: "network option list \<Rightarrow> network option list" where
  "sort_individuals individuals =
     map Some (sort_by comes_after (concat (map (\<lambda>x. case x of None \<Rightarrow> [] | Some g \<Rightarrow> [g])
                                             individuals)))
     @ filter (\<lambda>x. x = None) individuals"

definition getParent :: "'d neat \<Rightarrow> rand \<Rightarrow> error + (network option \<times> 'd neat \<times> rand)" where
  "getParent self rnd =
     (case selection self of
        POWER power' \<Rightarrow>
          (case population self of
             a # b # rest \<Rightarrow>
               (let self' = (if num_less (score a) (score b) then sort_population self else self)
                in Inr (case pow (rhd rnd) power' of
                          None \<Rightarrow> None
                        | Some x \<Rightarrow> nth_opt (population self')
                                      \<lfloor>double (x * real (length (population self')))\<rfloor>,
                        self', rtl rnd))
           | _ \<Rightarrow> Inl TypeError)
      | FITNESS_PROPORTIONATE \<Rightarrow>
          (let pop = population self;
               (minimalFitness, totalFitness) = fitness_totals pop;
               minimalFitness = \<bar>minimalFitness\<bar>;
               totalFitness = num_add totalFitness (Some (minimalFitness * real (length pop)));
               random = (case totalFitness of None \<Rightarrow> None | Some t \<Rightarrow> Some (rhd rnd * t))
           in (case proportionate_pick random minimalFitness (Some 0) pop of
                 Some genome \<Rightarrow> Inr (Some genome, self, rtl rnd)
               | None \<Rightarrow>
                   Inr (nth_opt pop (random_index (rhd (rtl rnd)) (length pop)), self,
                        rtl (rtl rnd))))
      | TOURNAMENT size' probability \<Rightarrow>
          (if size' > popsize self then Inl TournamentSize
           else
             (let pop = population self;
                  n = nat size';
                  individuals = map (\<lambda>i. nth_opt pop (random_index (rnd i) (length pop))) [0 ..< n];
                  rnd1 = (\<lambda>i. rnd (i + n))
              in (case tournament_pick probability (sort_individuals individuals) rnd1 of
                    (None, rnd2) \<Rightarrow> Inr (None, self, rnd2)
                  | (Some individual, rnd2) \<Rightarrow> Inr (individual, self, rnd2))))
      | OTHER_SELECTION \<Rightarrow> Inr (None, self, rnd))"

text \<open>\<^verbatim>\<open>getOffspring\<close> (lines 2138-2143).\<close>

definition getOffspring :: "(int \<Rightarrow> int \<Rightarrow> nat) \<Rightarrow> 'd neat \<Rightarrow> rand
    \<Rightarrow> error + (network \<times> 'd neat \<times> rand)" where
  "getOffspring iid self rnd =
     bindE (getParent self rnd) (\<lambda>(parent1, self1, rnd1).
       bindE (getParent self1 rnd1) (\<lambda>(parent2, self2, rnd2).
         (case (parent1, parent2) of
            (Some p1, Some p2) \<Rightarrow>
              bindE (cross_over iid p1 p2 (equal' self2) rnd2) (\<lambda>(child, rnd3).
                Inr (child, self2, rnd3))
          | _ \<Rightarrow> Inl TypeError)))"

text \<open>
  \<^verbatim>\<open>selectMutationMethod\<close> (lines 1942-1985). Its first statement sets
  \<^verbatim>\<open>efficientMutation\<close> to false, so only the second branch runs.
\<close>

definition exceeds :: "nat \<Rightarrow> nat option \<Rightarrow> bool" where
  "exceeds n cap = (case cap of None \<Rightarrow> False | Some c \<Rightarrow> n \<ge> c)"

definition selectMutationMethod :: "'d neat \<Rightarrow> network \<Rightarrow> rand \<Rightarrow> method_arg \<times> rand" where
  "selectMutationMethod self genome rnd =
     (let allowed = mutation self
      in (case nth_opt allowed (random_index (rhd rnd) (length allowed)) of
            None \<Rightarrow> MUndefined
          | Some current \<Rightarrow>
              if current = ADD_NODE \<and> exceeds (length (nodes genome)) (maxNodes self) then MNull
              else if current = ADD_CONN \<and> exceeds (length (connections genome)) (maxConns self)
                then MNull
              else if current = ADD_GATE \<and> exceeds (length (gates genome)) (maxGates self)
                then MNull
              else Method current),
         rtl rnd)"

text \<open>\<^verbatim>\<open>mutate\<close> of the manager (lines 2148-2158).\<close>

fun mutate_times :: "mutation_methods \<Rightarrow> 'd neat \<Rightarrow> nat \<Rightarrow> network \<Rightarrow> rand
    \<Rightarrow> error + (network \<times> rand)" where
  "mutate_times M self 0 genome rnd = Inr (genome, rnd)"
| "mutate_times M self (Suc j) genome rnd =
     (case selectMutationMethod self genome rnd of
        (mutationMethod, rnd1) \<Rightarrow>
          if efficientMutation self then mutate_times M self j genome rnd1
          else bindE (mutate M genome mutationMethod rnd1) (\<lambda>(genome', rnd2).
                 mutate_times M self j genome' rnd2))"

definition mutate_genome :: "mutation_methods \<Rightarrow> 'd neat \<Rightarrow> network \<Rightarrow> rand
    \<Rightarrow> error + (network \<times> rand)" where
  "mutate_genome M self genome rnd =
     (if rhd rnd \<le> mutationRate self
      then mutate_times M self (nat (mutationAmount self)) genome (rtl rnd)
      else Inr (genome, rtl rnd))"

fun mutate_all :: "mutation_methods \<Rightarrow> 'd neat \<Rightarrow> network list \<Rightarrow> rand
    \<Rightarrow> error + (network list \<times> rand)" where
  "mutate_all M self [] rnd = Inr ([], rnd)"
| "mutate_all M self (genome # rest) rnd =
     bindE (mutate_genome M self genome rnd) (\<lambda>(genome', rnd1).
       bindE (mutate_all M self rest rnd1) (\<lambda>(rest', rnd2). Inr (genome' # rest', rnd2)))"

definition Neat_mutate :: "mutation_methods \<Rightarrow> 'd neat \<Rightarrow> rand \<Rightarrow> error + ('d neat \<times> rand)" where
  "Neat_mutate M self rnd =
     bindE (mutate_all M self (population self) rnd) (\<lambda>(pop, rnd').
       Inr (self\<lparr> population := pop \<rparr>, rnd'))"

text \<open>
  Modelled from the spec: \<^verbatim>\<open>Node.clear\<close> (in the missing \<^verbatim>\<open>./node\<close>) resets the
  activation and the state of the node (section 4.1). \<^verbatim>\<open>clear\<close> of a network
  (lines 197-201) calls it for every node.
\<close>

definition Network_clear :: "network \<Rightarrow> network" where
  "Network_clear self = self\<lparr> nodes := map (\<lambda>n. n\<lparr> activation := 0, state := 0 \<rparr>) (nodes self) \<rparr>"

text \<open>
  \<^verbatim>\<open>evaluate\<close> (lines 2165-2187), for a population without \<^verbatim>\<open>undefined\<close> entries.
\<close>

definition set_scores :: "real option list \<Rightarrow> network list \<Rightarrow> network list" where
  "set_scores scores pop =
     map (\<lambda>(i, g). if i < length scores then g\<lparr> score := scores ! i \<rparr> else g) (enumerate 0 pop)"

definition evaluate :: "'d neat \<Rightarrow> 'd \<Rightarrow> 'd neat" where
  "evaluate self data =
     sort_population
       (if fitnessPopulation self then
          (let pop = (if clear self then map Network_clear (population self) else population self)
           in self\<lparr> population := set_scores (fitness_scores self data pop) pop \<rparr>)
        else
          self\<lparr> population :=
            map (\<lambda>genome. let genome' = (if clear self then Network_clear genome else genome)
                           in genome'\<lparr> score := Some (fitness self data genome') \<rparr>)
              (population self) \<rparr>)"

text \<open>
  \<^verbatim>\<open>filterGenome\<close> (lines 1905-1930). The callbacks are parameters: \<open>pickGenome\<close>
  gives \<open>None\<close> when its result is not a boolean, \<open>adjustGenome\<close> when its result is
  not a network. Without \<open>adjustGenome\<close> a picked genome is replaced by
  \<^verbatim>\<open>Network.from_JSON(template.to_JSON)\<close>, where \<^verbatim>\<open>to_JSON\<close> is not called: the
  sizes read from the function are \<^verbatim>\<open>undefined\<close>, and the constructor fails.
\<close>

definition filter_step :: "(network \<Rightarrow> bool option) \<Rightarrow> (network \<Rightarrow> network option) option
    \<Rightarrow> network \<Rightarrow> network list \<times> rand \<Rightarrow> error + (network list \<times> rand)" where
  "filter_step pickGenome adjustGenome genome s =
     (case s of (filtered, rnd) \<Rightarrow>
        (case pickGenome genome of
           None \<Rightarrow> Inl NotBoolean
         | Some False \<Rightarrow> Inr (filtered @ [genome], rnd)
         | Some True \<Rightarrow>
             (case adjustGenome of
                Some adjust \<Rightarrow>
                  (case adjust genome of
                     None \<Rightarrow> Inl NotNetwork
                   | Some result \<Rightarrow> Inr (filtered @ [result], rnd))
              | None \<Rightarrow>
                  bindE (Network None None rnd) (\<lambda>(net, rnd'). Inr (filtered @ [net], rnd')))))"

definition filterGenome :: "network list \<Rightarrow> (network \<Rightarrow> bool option)
    \<Rightarrow> (network \<Rightarrow> network option) option \<Rightarrow> rand \<Rightarrow> error + (network list \<times> rand)" where
  "filterGenome pop pickGenome adjustGenome rnd =
     foldE (filter_step pickGenome adjustGenome) pop ([], rnd)"

text \<open>
  \<^verbatim>\<open>evolve\<close> (lines 2015-2066). \<open>evolveSet\<close> is the argument if it is an array;
  \<^verbatim>\<open>parameter.is.required\<close>, which is not among the sources, is taken to raise. The
  elitists are read at the indices below \<^verbatim>\<open>elitism\<close>, \<^verbatim>\<open>undefined\<close> behind the end
  of the population; an \<^verbatim>\<open>undefined\<close> entry makes the second \<^verbatim>\<open>evaluate\<close> fail. The
  result is the manager, the fittest genome and the source of draws.
\<close>

definition evaluation_set :: "'d neat \<Rightarrow> 'd option \<Rightarrow> error + 'd" where
  "evaluation_set self evolveSet =
     (case evolveSet of
        Some d \<Rightarrow> Inr d
      | None \<Rightarrow> (case dataset self of Some d \<Rightarrow> Inr d | None \<Rightarrow> Inl MissingDataset))"

definition filter_population :: "'d neat \<Rightarrow> (network \<Rightarrow> bool option) option
    \<Rightarrow> (network \<Rightarrow> network option) option \<Rightarrow> rand \<Rightarrow> error + ('d neat \<times> rand)" where
  "filter_population self pickGenome adjustGenome rnd =
     (case pickGenome of
        None \<Rightarrow> Inr (self, rnd)
      | Some pick \<Rightarrow>
          bindE (filterGenome (population self) pick adjustGenome rnd) (\<lambda>(pop, rnd').
            Inr (self\<lparr> population := pop \<rparr>, rnd')))"

fun breed :: "(int \<Rightarrow> int \<Rightarrow> nat) \<Rightarrow> nat \<Rightarrow> 'd neat \<Rightarrow> rand
    \<Rightarrow> error + (network list \<times> 'd neat \<times> rand)" where
  "breed iid 0 self rnd = Inr ([], self, rnd)"
| "breed iid (Suc n) self rnd =
     bindE (getOffspring iid self rnd) (\<lambda>(child, self1, rnd1).
       bindE (breed iid n self1 rnd1) (\<lambda>(children, self2, rnd2).
         Inr (child # children, self2, rnd2)))"

text \<open>Lines 2032-2037: the provenance block, one copy of the template, and the offspring.\<close>

definition next_population :: "(int \<Rightarrow> int \<Rightarrow> nat) \<Rightarrow> 'd neat \<Rightarrow> rand
    \<Rightarrow> error + (network list \<times> 'd neat \<times> rand)" where
  "next_population iid self rnd =
     (if provenance self < 0 then Inl RangeError
      else
        bindE (from_JSON (to_JSON (template self)) rnd) (\<lambda>(copy, rnd1).
          bindE (breed iid (nat (popsize self - elitism self - provenance self)) self rnd1)
            (\<lambda>(children, self2, rnd2).
              Inr (replicate (nat (provenance self)) copy @ children, self2, rnd2))))"

text \<open>Lines 2057-2065: the copy of the fittest genome, the reset of the scores and the
  count of the generation.\<close>

definition fittest_of :: "'d neat \<Rightarrow> rand \<Rightarrow> error + ('d neat \<times> network \<times> rand)" where
  "fittest_of self rnd =
     (case population self of
        [] \<Rightarrow> Inl TypeError
      | best # rest \<Rightarrow>
          bindE (from_JSON (to_JSON best) rnd) (\<lambda>(fittest, rnd').
            Inr (self\<lparr> population := map (\<lambda>g. g\<lparr> score := None \<rparr>) (population self),
                       generation := generation self + 1 \<rparr>,
                 fittest\<lparr> score := score best \<rparr>, rnd')))"

definition evolve :: "(int \<Rightarrow> int \<Rightarrow> nat) \<Rightarrow> mutation_methods \<Rightarrow> 'd neat \<Rightarrow> 'd option
    \<Rightarrow> (network \<Rightarrow> bool option) option \<Rightarrow> (network \<Rightarrow> network option) option \<Rightarrow> rand
    \<Rightarrow> error + ('d neat \<times> network \<times> rand)" where
  "evolve iid M self evolveSet pickGenome adjustGenome rnd =
     (if elitism self + provenance self > popsize self then Inl CannotEvolve
      else if population self = [] then Inl TypeError
      else
        bindE (if score (last (population self)) = None
               then bindE (evaluation_set self evolveSet) (\<lambda>d. Inr (evaluate self d))
               else Inr self) (\<lambda>self1.
        bindE (filter_population self1 pickGenome adjustGenome rnd) (\<lambda>(self2, rnd2).
        let self3 = sort_population self2;
            elitists = map (\<lambda>i. nth_opt (population self3) (int i)) [0 ..< nat (elitism self3)]
        in
        bindE (next_population iid self3 rnd2) (\<lambda>(newPopulation, self4, rnd4).
        bindE (Neat_mutate M (self4\<lparr> population := newPopulation \<rparr>) rnd4) (\<lambda>(self5, rnd5).
        bindE (evaluation_set self5 evolveSet) (\<lambda>d.
        if None \<in> set elitists then Inl TypeError
        else
        bindE (filter_population
                 (evaluate (self5\<lparr> population := population self5 @ map the elitists \<rparr>) d)
                 pickGenome adjustGenome rnd5) (\<lambda>(self7, rnd7).
        fittest_of (sort_population self7) rnd7)))))))"

section \<open>Notions used to state the properties\<close>

text \<open>
  The connections the constructor forms, described in closed form: the \<open>k\<close>-th pair of
  \<open>initial_pairs\<close> gets the identifier \<open>k0 + k\<close> and the weight of the \<open>k\<close>-th draw.
\<close>

definition dense_from :: "nat \<Rightarrow> int \<Rightarrow> rand \<Rightarrow> (nat \<times> nat) list \<Rightarrow> connection list" where
  "dense_from k0 i rnd ps =
     map (\<lambda>(k, p). \<lparr> cid = k0 + k, cfrom = fst p, cto = snd p,
                      weight = initial_weight i (rnd k), gater = None \<rparr>) (enumerate 0 ps)"

definition fresh_network :: "int \<Rightarrow> int \<Rightarrow> rand \<Rightarrow> network" where
  "fresh_network i o' rnd =
     \<lparr> input_size = i, output_size = o', input = i, output = o',
       nodes = initial_nodes i o',
       connections = dense_from 0 i rnd (initial_pairs i o'),
       gates = [], selfconns = [], dropout = 0, score = None,
       next_node = nat (i + o'), next_conn = length (initial_pairs i o') \<rparr>"

text \<open>
  The nodes that \<^verbatim>\<open>SWAP_NODES\<close> may swap according to section 4.3 of the
  specification: not an input and, unless output mutation is allowed, not an output.
\<close>

definition swap_eligible :: "bool \<Rightarrow> network \<Rightarrow> node list" where
  "swap_eligible mutateOutput self =
     filter (\<lambda>x. ntype x \<noteq> Input \<and> (mutateOutput \<or> ntype x \<noteq> Output)) (nodes self)"

text \<open>An example: one input, one hidden node with a bias and a self-connection, one
  output; the connection into the hidden node is gated by the output.\<close>

definition example_net :: network where
  "example_net =
     \<lparr> input_size = 1, output_size = 1, input = 1, output = 1,
       nodes = [new_Node 0 Input,
                (new_Node 2 Hidden)\<lparr> bias := 3, self_weight := 2 \<rparr>,
                new_Node 1 Output],
       connections = [\<lparr> cid = 1, cfrom = 0, cto = 2, weight = 5, gater = Some 1 \<rparr>,
                      \<lparr> cid = 2, cfrom = 2, cto = 1, weight = 7, gater = None \<rparr>],
       gates = [CRef 1], selfconns = [2], dropout = 0, score = None,
       next_node = 3, next_conn = 3 \<rparr>"

definition example_methods :: mutation_methods where
  "example_methods =
     \<lparr> keep_gates = True, randomActivation = False, activation_mutateOutput = True,
       swap_mutateOutput = True, weight_min = - 1, weight_max = 1,
       bias_min = - 1, bias_max = 1, squash_choice = (\<lambda>k r. k + 1) \<rparr>"

text \<open>An example of a population manager: ten copies of a network of one input and one
  output, with the scores 10, 9, ..., 1; two elitists, no provenance, selection by
  \<^verbatim>\<open>POWER\<close> with the power 4; the fitness of a genome is the number of its connections.\<close>

definition example_genome :: "real \<Rightarrow> network" where
  "example_genome s =
     \<lparr> input_size = 1, output_size = 1, input = 1, output = 1,
       nodes = [new_Node 0 Input, new_Node 1 Output],
       connections = [\<lparr> cid = 0, cfrom = 0, cto = 1, weight = 1, gater = None \<rparr>],
       gates = [], selfconns = [], dropout = 0, score = Some s,
       next_node = 2, next_conn = 1 \<rparr>"

definition example_neat :: "unit neat" where
  "example_neat =
     \<lparr> generation = 0, popsize = 10, elitism = 2, provenance = 0, equal' = True,
       clear = False, mutationRate = 2 / 5, mutationAmount = 1, fitnessPopulation = False,
       fitness = (\<lambda>d g. real (length (connections g))),
       fitness_scores = (\<lambda>d pop. []),
       selection = POWER 4, mutation = [MOD_WEIGHT, MOD_BIAS], efficientMutation = False,
       template = example_genome 0,
       maxNodes = None, maxConns = None, maxGates = None,
       population = map (\<lambda>k. example_genome (real (10 - k))) [0 ..< 10],
       dataset = Some () \<rparr>"

text \<open>The offspring of an example genome crossed with itself, when every draw is 1/2.\<close>

definition example_child :: network where
  "example_child =
     \<lparr> input_size = 1, output_size = 1, input = 1, output = 1,
       nodes = [new_Node 2 Input, new_Node 3 Output],
       connections = [\<lparr> cid = 1, cfrom = 2, cto = 3, weight = 1, gater = None \<rparr>],
       gates = [], selfconns = [], dropout = 0, score = None,
       next_node = 4, next_conn = 2 \<rparr>"

text \<open>The largest double below 1 with 52 bits behind the point, a result of
  \<^verbatim>\<open>Math.random()\<close>; and the offspring of \<^verbatim>\<open>new Network(1, 1)\<close> crossed with itself when
  every draw is that number.\<close>

definition last_draw :: real where
  "last_draw = 1 - 1 / 2 ^ 52"

definition rounded_child :: "real \<Rightarrow> network" where
  "rounded_child w =
     \<lparr> input_size = 1, output_size = 1, input = 1, output = 1,
       nodes = [new_Node 2 Input, new_Node 3 Output, new_Node 4 Output],
       connections = [\<lparr> cid = 1, cfrom = 2, cto = 3, weight = w, gater = None \<rparr>],
       gates = [], selfconns = [], dropout = 0, score = None,
       next_node = 5, next_conn = 2 \<rparr>"

text \<open>\<^verbatim>\<open>new Network(1, 1)\<close> after \<^verbatim>\<open>mutate(ADD_NODE)\<close>, and then after three calls
  \<^verbatim>\<open>connect(h, h)\<close> for its hidden node \<open>h\<close>; every draw is 0.\<close>

definition with_hidden_node :: network where
  "with_hidden_node =
     fst (projr (mutate example_methods (fst (projr (Network (Some 1) (Some 1) (const_rand 0))))
                   (Method ADD_NODE) (const_rand 0)))"

definition self_connected_thrice :: network where
  "self_connected_thrice =
     fst (projr (connect (fst (projr (connect (fst (projr (connect with_hidden_node 2 2 None)))
                                        2 2 None)))
                   2 2 None))"

text \<open>The end points of the ordinary connections, in the order of the list.\<close>

definition ends :: "network \<Rightarrow> (nat \<times> nat) list" where
  "ends net = map (\<lambda>c. (cfrom c, cto c)) (connections net)"

text \<open>Two states of a network with the same nodes (identities and kinds, in the same
  order), the same sizes and the same node counter.\<close>

definition same_nodes :: "network \<Rightarrow> network \<Rightarrow> bool" where
  "same_nodes a b \<longleftrightarrow>
     map nid (nodes b) = map nid (nodes a) \<and> map ntype (nodes b) = map ntype (nodes a)
     \<and> input_size b = input_size a \<and> output_size b = output_size a
     \<and> next_node b = next_node a"

text \<open>
  The partition of the node list that C2 is about: the nodes at the indices
  \<open>[0, input_size)\<close> are inputs, those at \<open>[length - output_size, length)\<close> are
  outputs (an index outside the list has no node, so it falsifies the property).
\<close>

definition partition_of :: "int \<Rightarrow> int \<Rightarrow> node_type list \<Rightarrow> bool" where
  "partition_of i o' ts \<longleftrightarrow>
     (\<forall>k. 0 \<le> k \<and> k < i \<longrightarrow> nth_opt ts k = Some Input)
     \<and> (\<forall>k. int (length ts) - o' \<le> k \<and> k < int (length ts) \<longrightarrow> nth_opt ts k = Some Output)"

definition partitioned :: "network \<Rightarrow> bool" where
  "partitioned net \<longleftrightarrow>
     partition_of (input_size net) (output_size net) (map ntype (nodes net))"

text \<open>
  The invariant that carries the partition through the mutations: the sizes are not
  negative and leave room in the list, the nodes have distinct identities below the
  node counter, and every ordinary connection joins two different nodes of the
  network and ends behind the inputs.
\<close>

definition consistent :: "network \<Rightarrow> bool" where
  "consistent net \<longleftrightarrow>
     0 \<le> input_size net \<and> 0 \<le> output_size net
     \<and> input_size net + output_size net \<le> int (length (nodes net))
     \<and> partitioned net
     \<and> distinct (map nid (nodes net))
     \<and> (\<forall>n\<in>set (map nid (nodes net)). n < next_node net)
     \<and> (\<forall>p\<in>set (ends net). fst p \<noteq> snd p \<and> fst p \<in> set (map nid (nodes net))
           \<and> snd p \<in> set (drop (nat (input_size net)) (map nid (nodes net))))"

text \<open>
  The networks that construction (with sizes that are not negative) and any sequence
  of mutations, with any methods, parameters and draws, produce.
\<close>

inductive reachable :: "network \<Rightarrow> bool" where
  constructed: "0 \<le> i \<Longrightarrow> 0 \<le> o' \<Longrightarrow> Network (Some i) (Some o') rnd = Inr (net, rnd')
     \<Longrightarrow> reachable net"
| mutated: "reachable net \<Longrightarrow> mutate M net method rnd = Inr (net', rnd') \<Longrightarrow> reachable net'"

text \<open>
  The invariants of section 3 of the specification that C5 relies on: the nodes are
  distinct objects, every ordinary connection joins two different nodes of the
  network, no two ordinary connections join the same ordered pair, and the
  self-connections listed are those of distinct nodes of the network.
\<close>

definition well_formed :: "network \<Rightarrow> bool" where
  "well_formed net \<longleftrightarrow>
     distinct (map nid (nodes net))
     \<and> (\<forall>p\<in>set (ends net). fst p \<noteq> snd p \<and> fst p \<in> set (map nid (nodes net))
           \<and> snd p \<in> set (map nid (nodes net)))
     \<and> distinct (ends net)
     \<and> distinct (selfconns net) \<and> set (selfconns net) \<subseteq> set (map nid (nodes net))"

text \<open>The ordinary connections with their weights, and the listed self-connections with
  theirs.\<close>

definition triples :: "network \<Rightarrow> (nat \<times> nat \<times> real) list" where
  "triples net = map (\<lambda>c. (cfrom c, cto c, weight c)) (connections net)"

definition selfs :: "network \<Rightarrow> (nat \<times> real) list" where
  "selfs net =
     map (\<lambda>n. (n, case get_node net n of None \<Rightarrow> 0 | Some x \<Rightarrow> self_weight x)) (selfconns net)"

text \<open>The pair of indices of a gene.\<close>

definition g_pair :: "gene \<Rightarrow> int \<times> int" where
  "g_pair g = (g_from g, g_to g)"

section \<open>Rounding to doubles\<close>

lemma round_half_even_int [simp]: "round_half_even (of_int n) = n"
  by (simp add: round_half_even_def)

lemma round_half_even_le: "q \<le> of_int m \<Longrightarrow> round_half_even q \<le> m"
proof -
  assume a: "q \<le> of_int m"
  then have f: "\<lfloor>q\<rfloor> \<le> m" by (simp add: floor_le_iff) 
  show ?thesis
  proof (cases "\<lfloor>q\<rfloor> = m")
    case True
    with a have "q - of_int \<lfloor>q\<rfloor> \<le> 0" by simp
    then show ?thesis using True by (simp add: round_half_even_def Let_def)
  next
    case False
    with f have "\<lfloor>q\<rfloor> + 1 \<le> m" by simp
    then show ?thesis using f by (auto simp: round_half_even_def Let_def)
  qed
qed

lemma round_half_even_ge: "of_int m \<le> q \<Longrightarrow> m \<le> round_half_even q"
proof -
  assume "of_int m \<le> q"
  then have "m \<le> \<lfloor>q\<rfloor>" by (simp add: le_floor_iff)
  then show ?thesis by (auto simp: round_half_even_def Let_def)
qed

lemma binade:
  assumes "2 powr of_int e \<le> x" "x < 2 powr (of_int e + 1)"
  shows "\<lfloor>log 2 \<bar>x\<bar>\<rfloor> = e"
proof -
  have "0 < (2::real) powr of_int e" by simp
  with assms(1) have x: "0 < x" by linarith
  then have "of_int e \<le> log 2 x" "log 2 x < of_int e + 1"
    using assms by (simp_all add: le_log_iff log_less_iff)
  then show ?thesis using x by (simp add: floor_unique)
qed

lemma ulp_pos: "0 < ulp x"
  by (simp add: ulp_def)

lemma double_exact:
  assumes "0 < x" "x = of_int n * ulp x"
  shows "double x = x"
proof -
  have "x / ulp x = of_int n * ulp x / ulp x" using assms(2) by simp
  also have "\<dots> = of_int n" using ulp_pos [of x] by simp
  finally have "round_half_even (x / ulp x) = n" by simp
  with assms show ?thesis by (simp add: double_def)
qed

lemma double_le:
  assumes "0 < x" "x \<le> of_int m * ulp x"
  shows "double x \<le> of_int m * ulp x"
proof -
  from assms ulp_pos [of x] have "x / ulp x \<le> of_int m"
    by (simp add: pos_divide_le_eq)
  then have "round_half_even (x / ulp x) \<le> m" by (rule round_half_even_le)
  then have "of_int (round_half_even (x / ulp x)) * ulp x \<le> of_int m * ulp x"
    using ulp_pos [of x] by simp
  with assms(1) show ?thesis by (simp add: double_def)
qed

lemma double_ge:
  assumes "0 < x" "of_int m * ulp x \<le> x"
  shows "of_int m * ulp x \<le> double x"
proof -
  from assms ulp_pos [of x] have "of_int m \<le> x / ulp x"
    by (simp add: pos_le_divide_eq)
  then have "m \<le> round_half_even (x / ulp x)" by (rule round_half_even_ge)
  then have "of_int m * ulp x \<le> of_int (round_half_even (x / ulp x)) * ulp x"
    using ulp_pos [of x] by simp
  with assms(1) show ?thesis by (simp add: double_def)
qed

lemma ulp_half: "ulp (1 / 2) = 1 / 2 ^ 53"
proof -
  have "\<lfloor>log 2 \<bar>1 / 2 :: real\<bar>\<rfloor> = - 1"
    by (rule binade) (simp_all add: powr_minus)
  then show ?thesis by (simp add: ulp_def powr_minus powr_numeral)
qed

lemma double_half: "double (1 / 2) = 1 / 2"
  by (rule double_exact [where n = "2 ^ 52"]) (simp_all add: ulp_half)

lemma ulp_2_4: "2 \<le> x \<Longrightarrow> x < 4 \<Longrightarrow> ulp x = 1 / 2 ^ 51"
proof -
  assume a: "2 \<le> x" "x < 4"
  have "\<lfloor>log 2 \<bar>x\<bar>\<rfloor> = 1"
    using a by (intro binade) (simp_all add: powr_numeral)
  then show ?thesis by (simp add: ulp_def powr_minus powr_numeral)
qed

lemma ulp_half_1: "1 / 2 \<le> x \<Longrightarrow> x < 1 \<Longrightarrow> ulp x = 1 / 2 ^ 53"
proof -
  assume a: "1 / 2 \<le> x" "x < 1"
  have "\<lfloor>log 2 \<bar>x\<bar>\<rfloor> = - 1"
    using a by (intro binade) (simp_all add: powr_minus)
  then show ?thesis by (simp add: ulp_def powr_minus powr_numeral)
qed

lemma double_5_2: "double (5 / 2) = 5 / 2"
  by (rule double_exact [where n = "5 * 2 ^ 50"]) (simp_all add: ulp_2_4)

lemma double_5_8: "double (5 / 8) = 5 / 8"
  by (rule double_exact [where n = "5 * 2 ^ 50"]) (simp_all add: ulp_half_1)

lemma double_1_16: "double (1 / 16) = 1 / 16"
proof -
  have "\<lfloor>log 2 \<bar>1 / 16 :: real\<bar>\<rfloor> = - 4"
    by (rule binade) (simp_all add: powr_minus powr_numeral)
  then have u: "ulp (1 / 16) = 1 / 2 ^ 56"
    by (simp add: ulp_def powr_minus powr_numeral)
  show ?thesis
    by (rule double_exact [where n = "2 ^ 52"]) (simp_all add: u)
qed

lemma double_10: "double 10 = 10"
proof -
  have "\<lfloor>log 2 \<bar>10 :: real\<bar>\<rfloor> = 3"
    by (rule binade) (simp_all add: powr_numeral)
  then have u: "ulp 10 = 1 / 2 ^ 49"
    by (simp add: ulp_def powr_minus powr_numeral)
  show ?thesis
    by (rule double_exact [where n = "10 * 2 ^ 49"]) (simp_all add: u)
qed

lemma double_largest_draw: "double (1 - 1 / 2 ^ 52) = 1 - 1 / 2 ^ 52"
  by (rule double_exact [where n = "2 ^ 53 - 2"]) (simp_all add: ulp_half_1)

lemma double_rounds_up: "double (1 - 1 / 2 ^ 52 + 2) = 3"
proof -
  have u: "ulp (1 - 1 / 2 ^ 52 + 2) = 1 / 2 ^ 51"
    by (rule ulp_2_4) simp_all
  have "round_half_even (13510798882111487 / 2) = 6755399441055744"
    by (simp add: round_half_even_def)
  then show ?thesis
    unfolding double_def u by simp
qed

lemma round_half_even_less: "q < of_int m - 1 / 2 \<Longrightarrow> round_half_even q \<le> m - 1"
proof -
  assume a: "q < of_int m - 1 / 2"
  then have "q < of_int m" by simp
  then have f: "\<lfloor>q\<rfloor> \<le> m - 1" by (simp add: floor_less_iff)
  show ?thesis
  proof (cases "\<lfloor>q\<rfloor> = m - 1")
    case True
    with a have "q - of_int \<lfloor>q\<rfloor> < 1 / 2" by simp
    then show ?thesis using True by (simp add: round_half_even_def Let_def)
  next
    case False
    with f have "\<lfloor>q\<rfloor> + 1 \<le> m - 1" by simp
    then show ?thesis using f by (auto simp: round_half_even_def Let_def)
  qed
qed

lemma round_half_even_near:
  assumes "of_int m - 1 / 2 < q" "q \<le> of_int m"
  shows "round_half_even q = m"
proof (rule antisym)
  from assms(2) show "round_half_even q \<le> m" by (rule round_half_even_le)
  show "m \<le> round_half_even q"
  proof (cases "q = of_int m")
    case True
    then show ?thesis by simp
  next
    case False
    with assms(2) have "q < of_int m" by simp
    moreover from assms(1) have "of_int (m - 1) \<le> q" by simp
    ultimately have "\<lfloor>q\<rfloor> = m - 1" by (intro floor_unique) simp_all
    with assms(1) show ?thesis by (simp add: round_half_even_def Let_def)
  qed
qed

lemma pow2_floor_log_le: "0 < x \<Longrightarrow> 2 powr of_int \<lfloor>log 2 x\<rfloor> \<le> x"
proof -
  assume x: "0 < x"
  have "2 powr of_int \<lfloor>log 2 x\<rfloor> \<le> 2 powr log 2 x"
    by (intro powr_mono) simp_all
  also have "\<dots> = x" using x by simp
  finally show ?thesis .
qed

lemma double_nonneg: "0 \<le> x \<Longrightarrow> 0 \<le> double x"
proof (cases "x = 0")
  case True
  then show ?thesis by (simp add: double_def)
next
  case False
  assume "0 \<le> x"
  with False have x: "0 < x" by simp
  have "of_int 0 * ulp x \<le> x" using x by simp
  from double_ge [OF x this] show ?thesis by simp
qed

lemma double_below_one:
  assumes "0 < x" "x \<le> 1 - 1 / 2 ^ 53"
  shows "double x \<le> 1 - 1 / 2 ^ 53"
proof -
  define e where "e = \<lfloor>log 2 \<bar>x\<bar>\<rfloor>"
  define k where "k = nat (- 1 - e)"
  from assms have "log 2 x < 0" by simp
  then have e: "e \<le> - 1" using assms(1) by (simp add: e_def floor_le_iff)
  have u: "ulp x = 2 powr (of_int e - 52)" by (simp add: ulp_def e_def)
  have "(2::real) ^ k = 2 powr real k" by (simp add: powr_realpow)
  also have "real k = - 1 - of_int e" using e by (simp add: k_def)
  finally have "(2::real) ^ k * ulp x = 2 powr (- 1 - of_int e + (of_int e - 52))"
    unfolding u by (simp only: powr_add)
  also have "\<dots> = 1 / 2 ^ 53" by (simp add: powr_minus powr_numeral)
  finally have "of_int ((2 ^ 53 - 1) * 2 ^ k) * ulp x = (2 ^ 53 - 1) * (1 / 2 ^ 53)"
    by (simp add: mult.assoc)
  also have "\<dots> = 1 - 1 / 2 ^ 53" by simp
  finally have m: "of_int ((2 ^ 53 - 1) * 2 ^ k) * ulp x = 1 - 1 / 2 ^ 53" .
  from double_le [OF assms(1), of "(2 ^ 53 - 1) * 2 ^ k"] assms(2) show ?thesis
    unfolding m by simp
qed

lemma double_below_int:
  assumes "0 < y" "y \<le> real n * (1 - 1 / 2 ^ 53)" "n < 2 ^ 53"
  shows "double y < real n"
proof -
  define e where "e = \<lfloor>log 2 \<bar>y\<bar>\<rfloor>"
  define k where "k = nat (52 - e)"
  define M :: int where "M = int n * 2 ^ k"
  have n0: "0 < real n"
  proof (rule ccontr)
    assume "\<not> 0 < real n"
    then have "n = 0" by simp
    with assms(1,2) show False by simp
  qed
  have "real n * (1 - 1 / 2 ^ 53) = real n - real n / 2 ^ 53"
    by (simp add: right_diff_distrib)
  also have "\<dots> < real n" using n0 by simp
  finally have yn: "y < real n" using assms(2) by simp
  have "real n < 2 ^ 53" using assms(3) by simp
  with yn have "y < 2 powr 53" by (simp add: powr_numeral)
  then have "log 2 y < 53" using assms(1) by (simp add: log_less_iff)
  then have e: "e \<le> 52" using assms(1) by (simp add: e_def floor_le_iff)
  have u: "ulp y = 2 powr (of_int e - 52)" by (simp add: ulp_def e_def)
  have "(2::real) ^ k = 2 powr real k" by (simp add: powr_realpow)
  also have "real k = 52 - of_int e" using e by (simp add: k_def)
  finally have "(2::real) ^ k * ulp y = 2 powr (52 - of_int e + (of_int e - 52))"
    unfolding u by (simp only: powr_add)
  then have ku: "(2::real) ^ k * ulp y = 1" by simp
  have Mu: "of_int M * ulp y = real n"
    using ku by (simp add: M_def mult.assoc)
  have "2 powr of_int e \<le> y"
    using pow2_floor_log_le [OF assms(1)] assms(1) by (simp add: e_def)
  then have "ulp y \<le> y / 2 ^ 52"
    unfolding u by (simp add: powr_diff powr_numeral divide_right_mono)
  also have "\<dots> < real n / 2 ^ 52" using yn by (simp add: divide_strict_right_mono)
  finally have "ulp y / 2 < real n / 2 ^ 53" by simp
  with assms(2) have "y < real n - ulp y / 2" by (simp add: algebra_simps)
  then have "y < (of_int M - 1 / 2) * ulp y"
    using Mu by (simp add: algebra_simps)
  then have "y / ulp y < of_int M - 1 / 2"
    using ulp_pos [of y] by (simp add: pos_divide_less_eq)
  then have "round_half_even (y / ulp y) \<le> M - 1" by (rule round_half_even_less)
  then have "of_int (round_half_even (y / ulp y)) * ulp y \<le> of_int (M - 1) * ulp y"
    using ulp_pos [of y] by (simp del: of_int_diff)
  also have "\<dots> = real n - ulp y" using Mu by (simp add: algebra_simps)
  also have "\<dots> < real n" using ulp_pos [of y] by simp
  finally show ?thesis using assms(1) by (simp add: double_def)
qed

lemma double_pow_small:
  assumes "0 < p" "p < 1 / 2 ^ 54"
  shows "double ((1 / 2) powr p) = 1"
proof -
  define x :: real where "x = (1 / 2) powr p"
  have x: "x = exp (- (p * ln 2))"
    by (simp add: x_def powr_def ln_div)
  have "ln (1 + 1) \<le> (1::real)" by (rule ln_add_one_self_le_self) simp
  then have l: "ln 2 \<le> (1::real)" by simp
  have "0 < ln (2::real)" by simp
  with assms(1) have "0 < p * ln 2" by simp
  then have lt: "x < 1" unfolding x by simp
  have "p * ln 2 \<le> p * 1" using l assms(1) by (intro mult_left_mono) simp_all
  then have "1 - p \<le> 1 + - (p * ln 2)" by simp
  also have "\<dots> \<le> x" unfolding x by (rule exp_ge_add_one_self)
  finally have ge: "1 - 1 / 2 ^ 54 < x" using assms(2) by simp
  then have h: "1 / 2 \<le> x" by simp
  have u: "ulp x = 1 / 2 ^ 53" using h lt by (rule ulp_half_1)
  have "round_half_even (x / ulp x) = 2 ^ 53"
    unfolding u using ge lt by (intro round_half_even_near) simp_all
  then show ?thesis
    unfolding x_def [symmetric] using h by (simp add: double_def u)
qed

lemma floor_double_index:
  assumes "0 \<le> x" "x \<le> 1 - 1 / 2 ^ 53" "0 < n" "n < 2 ^ 53"
  shows "0 \<le> \<lfloor>double (x * real n)\<rfloor> \<and> \<lfloor>double (x * real n)\<rfloor> < int n"
proof -
  have 0: "0 \<le> x * real n" using assms(1) by simp
  have "double (x * real n) < real n"
  proof (cases "x * real n = 0")
    case True
    then show ?thesis using assms(3) by (simp add: double_def)
  next
    case False
    with 0 have p: "0 < x * real n" by (simp only: order_less_le) simp
    have "real n * x \<le> real n * (1 - 1 / 2 ^ 53)"
      using assms(2) by (intro mult_left_mono) simp_all
    then have "x * real n \<le> real n * (1 - 1 / 2 ^ 53)"
      by (simp only: mult.commute [of x])
    from double_below_int [OF p this assms(4)] show ?thesis .
  qed
  then have "\<lfloor>double (x * real n)\<rfloor> < int n" by (simp add: floor_less_iff)
  moreover have "0 \<le> \<lfloor>double (x * real n)\<rfloor>" using double_nonneg [OF 0] by simp
  ultimately show ?thesis by simp
qed


section \<open>The constructor in closed form\<close>

lemma bindE_simps [simp]:
  "bindE (Inl e) f = Inl e"
  "bindE (Inr x) f = f x"
  by (simp_all add: bindE_def)

lemma bindE_eq_Inr: "bindE m f = Inr y \<longleftrightarrow> (\<exists>x. m = Inr x \<and> f x = Inr y)"
  by (cases m) simp_all

lemma nth_opt_Some: "k < length xs \<Longrightarrow> nth_opt xs (int k) = Some (xs ! k)"
  by (simp add: nth_opt_def)

lemma nth_opt_eq_Some: "nth_opt xs i = Some x \<longleftrightarrow> (0 \<le> i \<and> nat i < length xs \<and> xs ! nat i = x)"
  by (auto simp: nth_opt_def)

lemma nth_opt_in_set: "nth_opt xs i = Some x \<Longrightarrow> x \<in> set xs"
  by (auto simp: nth_opt_eq_Some)

lemma length_initial_nodes: "length (initial_nodes i o') = nat (i + o')"
  by (simp add: initial_nodes_def)

lemma nth_initial_nodes:
  "k < nat (i + o') \<Longrightarrow> initial_nodes i o' ! k = new_Node k (if int k < i then Input else Output)"
  by (simp add: initial_nodes_def)

lemma new_Node_sel [simp]:
  "nid (new_Node k t) = k" "ntype (new_Node k t) = t" "bias (new_Node k t) = 0"
  "self_weight (new_Node k t) = 0" "self_gater (new_Node k t) = None"
  "activation (new_Node k t) = 0" "state (new_Node k t) = 0" "mask (new_Node k t) = 1"
  "squash (new_Node k t) = 0"
  by (simp_all add: new_Node_def)

lemma connect_fresh:
  "f \<noteq> t \<Longrightarrow> \<not> list_ex (\<lambda>c. cfrom c = f \<and> cto c = t) (connections net) \<Longrightarrow>
   connect net f t w =
     Inr (net\<lparr> connections := connections net @
                 [\<lparr> cid = next_conn net, cfrom = f, cto = t,
                    weight = (case w of None \<Rightarrow> default_weight | Some v \<Rightarrow> v), gater = None \<rparr>],
               next_conn := Suc (next_conn net) \<rparr>, CRef (next_conn net))"
  by (simp add: connect_def isProjectingTo_def)

lemma dense_from_Cons:
  "dense_from k0 i rnd (p # ps) =
     \<lparr> cid = k0, cfrom = fst p, cto = snd p, weight = initial_weight i (rnd 0), gater = None \<rparr>
     # dense_from (Suc k0) i (rtl rnd) ps"
  by (simp add: dense_from_def enumerate_Suc_eq rtl_def split_def comp_def)

lemma foldE_connect_initial:
  assumes "nodes net = initial_nodes i o'" "input_size net = i"
    and "\<forall>p\<in>set ps. fst p < nat (i + o') \<and> snd p < nat (i + o') \<and> fst p \<noteq> snd p"
    and "distinct ps"
    and "\<forall>c\<in>set (connections net). (cfrom c, cto c) \<notin> set ps"
  shows "foldE connect_initial ps (net, rnd) =
     Inr (net\<lparr> connections := connections net @ dense_from (next_conn net) i rnd ps,
               next_conn := next_conn net + length ps \<rparr>, (\<lambda>n. rnd (n + length ps)))"
  using assms
proof (induction ps arbitrary: net rnd)
  case Nil
  then show ?case by (simp add: dense_from_def)
next
  case (Cons p ps)
  obtain a b where p: "p = (a, b)" by (cases p)
  from Cons.prems p have ab: "a < nat (i + o')" "b < nat (i + o')" "a \<noteq> b" by auto
  let ?w = "initial_weight i (rhd rnd)"
  let ?c = "\<lparr> cid = next_conn net, cfrom = a, cto = b, weight = ?w, gater = None \<rparr>"
  let ?net1 = "net\<lparr> connections := connections net @ [?c], next_conn := Suc (next_conn net) \<rparr>"
  have nop: "\<not> list_ex (\<lambda>c. cfrom c = a \<and> cto c = b) (connections net)"
    using Cons.prems(5) p by (auto simp: list_ex_iff)
  have step: "connect_initial (a, b) (net, rnd) = Inr (?net1, rtl rnd)"
    using ab Cons.prems(1,2) nop
    by (simp add: connect_initial_def nth_opt_Some length_initial_nodes nth_initial_nodes
        connect_fresh)
  have ih: "foldE connect_initial ps (?net1, rtl rnd) =
     Inr (?net1\<lparr> connections := connections ?net1 @ dense_from (next_conn ?net1) i (rtl rnd) ps,
               next_conn := next_conn ?net1 + length ps \<rparr>, (\<lambda>n. rtl rnd (n + length ps)))"
    apply (rule Cons.IH)
    using Cons.prems p by auto
  show ?case
    unfolding p foldE.simps step sum.case ih
    by (simp add: dense_from_Cons rtl_def rhd_def)
qed

lemma initial_pairs_product:
  "initial_pairs i o' = List.product [0 ..< nat i] [nat i ..< nat (o' + i)]"
  by (simp add: initial_pairs_def product_concat_map)

lemma initial_pairs_valid:
  "\<forall>p\<in>set (initial_pairs i o'). fst p < nat (i + o') \<and> snd p < nat (i + o') \<and> fst p \<noteq> snd p"
  by (auto simp: initial_pairs_product add.commute)

lemma distinct_initial_pairs: "distinct (initial_pairs i o')"
  by (simp add: initial_pairs_product distinct_product)

lemma Network_Some:
  "Network (Some i) (Some o') rnd =
     Inr (fresh_network i o' rnd, (\<lambda>n. rnd (n + length (initial_pairs i o'))))"
  unfolding Network_def
  by (simp add: foldE_connect_initial [where o' = o'] initial_pairs_valid distinct_initial_pairs
      fresh_network_def)

section \<open>Lemmas on the constructor's connections and on activation\<close>

lemma dense_from_endpoints: "map (\<lambda>c. (cfrom c, cto c)) (dense_from k0 i rnd ps) = ps"
proof -
  have "map (\<lambda>c. (cfrom c, cto c)) (dense_from k0 i rnd ps) = map snd (enumerate 0 ps)"
    by (simp add: dense_from_def split_def comp_def)
  then show ?thesis by (simp add: map_snd_enumerate)
qed


lemma length_dense_from [simp]: "length (dense_from k0 i rnd ps) = length ps"
  by (simp add: dense_from_def)

lemmas fresh_eval = fresh_network_def initial_nodes_def initial_pairs_def dense_from_def
  eval_nat_numeral

lemma update_node_ntype:
  "(\<And>x. ntype (f x) = ntype x) \<Longrightarrow> map ntype (nodes (update_node n f net)) = map ntype (nodes net)"
  by (simp add: update_node_def comp_def if_distrib [of ntype])

lemma Node_activate_ntype:
  "map ntype (nodes (fst (Node_activate F net n inp))) = map ntype (nodes net)"
  by (simp add: Node_activate_def update_node_ntype Let_def split: option.splits)

lemma activate_step_ok:
  assumes "k < length (nodes net)"
  shows "\<exists>net' rnd' out'. activate_step F (Some xs) tr k (net, rnd, out) = Inr (net', rnd', out')
     \<and> map ntype (nodes net') = map ntype (nodes net)
     \<and> length out' = length out + (if ntype (nodes net ! k) = Output then 1 else 0)"
proof -
  let ?x = "nodes net ! k"
  have nth: "nth_opt (nodes net) (int k) = Some ?x"
    using assms by (simp add: nth_opt_Some)
  show ?thesis
  proof (cases "ntype ?x = Input")
    case True
    then show ?thesis
      by (simp add: activate_step_def nth Node_activate_ntype)
  next
    case False
    show ?thesis
    proof (cases "ntype ?x = Output")
      case True
      obtain net' a where na: "Node_activate F net (nid ?x) None = (net', a)"
        by (cases "Node_activate F net (nid ?x) None")
      have "map ntype (nodes net') = map ntype (nodes net)"
        using Node_activate_ntype [of F net "nid ?x" None] na by simp
      then show ?thesis
        using True by (simp add: activate_step_def nth na)
    next
      case False
      then show ?thesis
        using \<open>ntype ?x \<noteq> Input\<close>
        by (simp add: activate_step_def nth Node_activate_ntype update_node_ntype)
    qed
  qed
qed

lemma foldE_activate_step:
  assumes "\<forall>k\<in>set ks. k < length (nodes net)"
  shows "\<exists>net' rnd' out'. foldE (activate_step F (Some xs) tr) ks (net, rnd, out) = Inr (net', rnd', out')
     \<and> map ntype (nodes net') = map ntype (nodes net)
     \<and> length out' = length out + length (filter (\<lambda>k. ntype (nodes net ! k) = Output) ks)"
  using assms
proof (induction ks arbitrary: net rnd out)
  case Nil
  then show ?case by simp
next
  case (Cons k ks)
  then have k: "k < length (nodes net)" by simp
  from activate_step_ok [OF k, of F xs tr rnd out]
  obtain net1 rnd1 out1 where
    s: "activate_step F (Some xs) tr k (net, rnd, out) = Inr (net1, rnd1, out1)"
    and t: "map ntype (nodes net1) = map ntype (nodes net)"
    and l: "length out1 = length out + (if ntype (nodes net ! k) = Output then 1 else 0)"
    by blast
  from t have len: "length (nodes net1) = length (nodes net)"
    by (metis length_map)
  have ty: "ntype (nodes net1 ! j) = ntype (nodes net ! j)" if "j < length (nodes net)" for j
    using that t len by (metis nth_map)
  have "\<forall>j\<in>set ks. j < length (nodes net1)"
    using Cons.prems len by simp
  from Cons.IH [OF this, of rnd1 out1]
  obtain net' rnd' out' where
    f: "foldE (activate_step F (Some xs) tr) ks (net1, rnd1, out1) = Inr (net', rnd', out')"
    and t': "map ntype (nodes net') = map ntype (nodes net1)"
    and l': "length out' = length out1 + length (filter (\<lambda>k. ntype (nodes net1 ! k) = Output) ks)"
    by blast
  have "filter (\<lambda>k. ntype (nodes net1 ! k) = Output) ks = filter (\<lambda>k. ntype (nodes net ! k) = Output) ks"
    using Cons.prems ty by (intro filter_cong) auto
  then show ?case
    using s f t t' l l' by simp
qed

lemma length_filter_nth:
  "length (filter (\<lambda>k. P (xs ! k)) [0 ..< length xs]) = length (filter P xs)"
proof -
  have "filter P xs = filter P (map (\<lambda>k. xs ! k) [0 ..< length xs])"
    by (simp add: map_nth)
  also have "\<dots> = map (\<lambda>k. xs ! k) (filter (\<lambda>k. P (xs ! k)) [0 ..< length xs])"
    by (simp add: filter_map comp_def)
  finally show ?thesis by simp
qed


section \<open>What the editing operations leave unchanged\<close>

lemma same_nodes_refl [simp]: "same_nodes a a"
  by (simp add: same_nodes_def)

lemma same_nodes_trans: "same_nodes a b \<Longrightarrow> same_nodes b c \<Longrightarrow> same_nodes a c"
  by (simp add: same_nodes_def)

lemma same_nodes_update_node:
  "(\<And>x. nid (f x) = nid x \<and> ntype (f x) = ntype x) \<Longrightarrow> same_nodes net (update_node n f net)"
  by (simp add: same_nodes_def update_node_def comp_def if_distrib [of nid] if_distrib [of ntype])

lemma same_nodes_update_conn: "same_nodes net (update_conn c f net)"
  by (simp add: same_nodes_def update_conn_def)

lemma same_nodes_fields [simp]:
  "same_nodes net (net\<lparr> gates := g \<rparr>)"
  "same_nodes net (net\<lparr> selfconns := s \<rparr>)"
  "same_nodes net (net\<lparr> connections := cs \<rparr>)"
  "same_nodes net (net\<lparr> connections := cs, next_conn := k \<rparr>)"
  by (simp_all add: same_nodes_def)

lemma same_nodes_cong_fields:
  "same_nodes a b \<Longrightarrow> same_nodes a (b\<lparr> gates := g \<rparr>)"
  "same_nodes a b \<Longrightarrow> same_nodes a (b\<lparr> selfconns := s \<rparr>)"
  "same_nodes a b \<Longrightarrow> same_nodes a (b\<lparr> connections := cs \<rparr>)"
  by (simp_all add: same_nodes_def)

lemma ends_update_node [simp]: "ends (update_node n f net) = ends net"
  by (simp add: ends_def update_node_def)

lemma connections_update_node [simp]: "connections (update_node n f net) = connections net"
  by (simp add: update_node_def)

lemma selfconns_update_node [simp]: "selfconns (update_node n f net) = selfconns net"
  by (simp add: update_node_def)

lemma selfconns_update_conn [simp]: "selfconns (update_conn c f net) = selfconns net"
  by (simp add: update_conn_def)

lemma ends_update_conn:
  "(\<And>x. cfrom (f x) = cfrom x \<and> cto (f x) = cto x) \<Longrightarrow> ends (update_conn c f net) = ends net"
  by (simp add: ends_def update_conn_def comp_def if_distrib [of cfrom] if_distrib [of cto])

lemma set_ref_gater_frame:
  "same_nodes net (set_ref_gater r g net)"
  "ends (set_ref_gater r g net) = ends net"
  "selfconns (set_ref_gater r g net) = selfconns net"
  by (cases r; simp add: set_ref_gater_def same_nodes_update_node same_nodes_update_conn
      ends_update_conn)+

lemma ungate_frame:
  assumes "ungate net r = Inr net'"
  shows "same_nodes net net'" "ends net' = ends net" "selfconns net' = selfconns net"
proof -
  from assms obtain g where
    "net' = set_ref_gater r None (net\<lparr> gates := remove1 r (gates net) \<rparr>)"
    by (auto simp: ungate_def split: if_splits option.splits)
  then show "same_nodes net net'" "ends net' = ends net" "selfconns net' = selfconns net"
    using set_ref_gater_frame [where net = "net\<lparr> gates := remove1 r (gates net) \<rparr>" and r = r and g = None]
    by (simp_all add: same_nodes_def ends_def)
qed

lemma gate_frame:
  assumes "gate net n r = Inr net'"
  shows "same_nodes net net'" "ends net' = ends net" "selfconns net' = selfconns net"
proof -
  from assms have "net' = net \<or> net' = (set_ref_gater r (Some n) net)\<lparr> gates := gates net @ [r] \<rparr>"
    by (auto simp: gate_def split: if_splits)
  then show "same_nodes net net'" "ends net' = ends net" "selfconns net' = selfconns net"
    using set_ref_gater_frame [where net = net and r = r and g = "Some n"]
    by (auto simp: same_nodes_def ends_def)
qed

lemma map_remove_first:
  "map g (remove_first (\<lambda>c. g c = v) xs) = remove1 v (map g xs)"
  by (induction xs) auto

lemma ends_remove_first:
  "map (\<lambda>c. (cfrom c, cto c)) (remove_first (\<lambda>c. cfrom c = f \<and> cto c = t) cs)
     = remove1 (f, t) (map (\<lambda>c. (cfrom c, cto c)) cs)"
  using map_remove_first [of "\<lambda>c. (cfrom c, cto c)" "(f, t)" cs] by simp

lemma find_None_remove1:
  "find (\<lambda>c. cfrom c = f \<and> cto c = t) cs = None \<Longrightarrow>
     remove1 (f, t) (map (\<lambda>c. (cfrom c, cto c)) cs) = map (\<lambda>c. (cfrom c, cto c)) cs"
  by (rule remove1_idem) (auto simp: find_None_iff)

lemma disconnect_frame:
  assumes "disconnect net f t = Inr net'"
  shows "same_nodes net net'"
    and "f \<noteq> t \<Longrightarrow> ends net' = remove1 (f, t) (ends net) \<and> selfconns net' = selfconns net"
    and "f = t \<Longrightarrow> ends net' = ends net \<and> selfconns net' = remove1 f (selfconns net)"
proof -
  show "same_nodes net net'"
  proof (cases "f = t")
    case True
    with assms obtain net1 where
      1: "(if f \<in> set (selfconns net) \<and> ref_gater net (SRef f) \<noteq> None
           then ungate net (SRef f) else Inr net) = Inr net1"
      and 2: "net' = update_node f (\<lambda>x. x\<lparr> self_weight := 0 \<rparr>)
                         (net1\<lparr> selfconns := remove1 f (selfconns net1) \<rparr>)"
      by (auto simp: disconnect_def bindE_eq_Inr)
    from 1 have "same_nodes net net1"
      by (auto split: if_splits dest: ungate_frame(1))
    then show ?thesis
      unfolding 2
      by (auto intro!: same_nodes_trans [OF _ same_nodes_update_node] same_nodes_cong_fields)
  next
    case False
    show ?thesis
    proof (cases "find (\<lambda>c. cfrom c = f \<and> cto c = t) (connections net)")
      case None
      with assms False show ?thesis by (simp add: disconnect_def)
    next
      case (Some c)
      with assms False obtain net1 where
        1: "(if gater c \<noteq> None then ungate net (CRef (cid c)) else Inr net) = Inr net1"
        and 2: "net' = net1\<lparr> connections :=
                    remove_first (\<lambda>c. cfrom c = f \<and> cto c = t) (connections net1) \<rparr>"
        by (auto simp: disconnect_def bindE_eq_Inr)
      from 1 have "same_nodes net net1"
        by (auto split: if_splits dest: ungate_frame(1))
      then show ?thesis
        unfolding 2 by (rule same_nodes_cong_fields)
    qed
  qed
next
  assume ft: "f \<noteq> t"
  show "ends net' = remove1 (f, t) (ends net) \<and> selfconns net' = selfconns net"
  proof (cases "find (\<lambda>c. cfrom c = f \<and> cto c = t) (connections net)")
    case None
    with assms ft show ?thesis
      by (simp add: disconnect_def ends_def find_None_remove1)
  next
    case (Some c)
    with assms ft obtain net1 where
      1: "(if gater c \<noteq> None then ungate net (CRef (cid c)) else Inr net) = Inr net1"
      and 2: "net' = net1\<lparr> connections :=
                  remove_first (\<lambda>c. cfrom c = f \<and> cto c = t) (connections net1) \<rparr>"
      by (auto simp: disconnect_def bindE_eq_Inr)
    from 1 have "ends net1 = ends net \<and> selfconns net1 = selfconns net"
      by (auto split: if_splits dest: ungate_frame)
    then show ?thesis
      unfolding 2 by (simp add: ends_def ends_remove_first)
  qed
next
  assume ft: "f = t"
  with assms obtain net1 where
    1: "(if f \<in> set (selfconns net) \<and> ref_gater net (SRef f) \<noteq> None
         then ungate net (SRef f) else Inr net) = Inr net1"
    and 2: "net' = update_node f (\<lambda>x. x\<lparr> self_weight := 0 \<rparr>)
                       (net1\<lparr> selfconns := remove1 f (selfconns net1) \<rparr>)"
    by (auto simp: disconnect_def bindE_eq_Inr)
  from 1 have "ends net1 = ends net \<and> selfconns net1 = selfconns net"
    by (auto split: if_splits dest: ungate_frame)
  then show "ends net' = ends net \<and> selfconns net' = remove1 f (selfconns net)"
    unfolding 2 by (simp add: ends_def)
qed

lemma connect_frame:
  assumes "connect net f t w = Inr (net', r)"
  shows "same_nodes net net'"
    and "f \<noteq> t \<Longrightarrow> ends net' = ends net @ [(f, t)] \<and> selfconns net' = selfconns net"
    and "f = t \<Longrightarrow> ends net' = ends net \<and> selfconns net' = selfconns net @ [f]"
  using assms
  by (auto simp: connect_def Let_def ends_def split: if_splits
      intro!: same_nodes_cong_fields same_nodes_update_node)


section \<open>remove, step by step\<close>

lemma ends_conns_in: "map (\<lambda>c. (cfrom c, cto c)) (conns_in net n) = filter (\<lambda>p. snd p = n) (ends net)"
  by (simp add: conns_in_def ends_def filter_map comp_def)

lemma ends_conns_out: "map (\<lambda>c. (cfrom c, cto c)) (conns_out net n) = filter (\<lambda>p. fst p = n) (ends net)"
  by (simp add: conns_out_def ends_def filter_map comp_def)

lemma length_conns_in: "length (conns_in net n) = length (filter (\<lambda>p. snd p = n) (ends net))"
  by (metis ends_conns_in length_map)

lemma length_conns_out: "length (conns_out net n) = length (filter (\<lambda>p. fst p = n) (ends net))"
  by (metis ends_conns_out length_map)

lemma nth_opt_conns_in:
  assumes "nth_opt (conns_in net n) i = Some c"
  shows "cto c = n" "(cfrom c, n) \<in> set (ends net)"
proof -
  from assms have "c \<in> set (conns_in net n)" by (rule nth_opt_in_set)
  then show "cto c = n" "(cfrom c, n) \<in> set (ends net)"
    by (auto simp: conns_in_def ends_def)
qed

lemma nth_opt_conns_out:
  assumes "nth_opt (conns_out net n) i = Some c"
  shows "cfrom c = n" "(n, cto c) \<in> set (ends net)"
proof -
  from assms have "c \<in> set (conns_out net n)" by (rule nth_opt_in_set)
  then show "cfrom c = n" "(n, cto c) \<in> set (ends net)"
    by (auto simp: conns_out_def ends_def)
qed

lemma length_filter_remove1:
  "x \<in> set xs \<Longrightarrow> P x \<Longrightarrow> Suc (length (filter P (remove1 x xs))) = length (filter P xs)"
  by (induction xs) auto

lemma set_remove1_subset': "set (remove1 x xs) \<subseteq> set xs"
  by (rule set_remove1_subset)

text \<open>The walk over the incoming connections removes them all.\<close>

lemma remove_in_result:
  assumes "remove_in kg n k (net, gs, inputs) = Inr (net', gs', inputs')"
    and "length (filter (\<lambda>p. snd p = n) (ends net)) = k"
    and "(n, n) \<notin> set (ends net)"
  shows "same_nodes net net' \<and> selfconns net' = selfconns net
     \<and> filter (\<lambda>p. snd p = n) (ends net') = []
     \<and> set (ends net') \<subseteq> set (ends net)
     \<and> set inputs' \<subseteq> set inputs \<union> {a. a \<noteq> n \<and> (a, n) \<in> set (ends net)}"
  using assms
proof (induction k arbitrary: net gs inputs)
  case 0
  then show ?case by simp
next
  case (Suc k)
  from Suc.prems(1) obtain c net1 where
    c: "nth_opt (conns_in net n) (int k) = Some c"
    and d: "disconnect net (cfrom c) n = Inr net1"
    and r: "remove_in kg n k
              (net1, (case gater c of None \<Rightarrow> gs | Some g \<Rightarrow> if kg \<and> g \<noteq> n then gs @ [g] else gs),
               inputs @ [cfrom c]) = Inr (net', gs', inputs')"
    by (auto simp: bindE_eq_Inr split: option.splits)
  from nth_opt_conns_in(2) [OF c] have mem: "(cfrom c, n) \<in> set (ends net)" .
  with Suc.prems(3) have ne: "cfrom c \<noteq> n" by auto
  from disconnect_frame [OF d] ne have
    sn: "same_nodes net net1" and e: "ends net1 = remove1 (cfrom c, n) (ends net)"
    and sc: "selfconns net1 = selfconns net"
    by auto
  have len: "length (filter (\<lambda>p. snd p = n) (ends net1)) = k"
    using length_filter_remove1 [OF mem, of "\<lambda>p. snd p = n"] Suc.prems(2) e by simp
  have sub: "set (ends net1) \<subseteq> set (ends net)"
    unfolding e by (rule set_remove1_subset)
  with Suc.prems(3) have nn: "(n, n) \<notin> set (ends net1)" by auto
  from Suc.IH [OF r len nn] have ih:
    "same_nodes net1 net'" "selfconns net' = selfconns net1"
    "filter (\<lambda>p. snd p = n) (ends net') = []" "set (ends net') \<subseteq> set (ends net1)"
    "set inputs' \<subseteq> set (inputs @ [cfrom c]) \<union> {a. a \<noteq> n \<and> (a, n) \<in> set (ends net1)}"
    by auto
  show ?case
    using ih sn sc sub mem ne by (auto intro: same_nodes_trans)
qed

lemma remove_out_result:
  assumes "remove_out kg n k (net, gs, outputs) = Inr (net', gs', outputs')"
    and "length (filter (\<lambda>p. fst p = n) (ends net)) = k"
    and "(n, n) \<notin> set (ends net)"
  shows "same_nodes net net' \<and> selfconns net' = selfconns net
     \<and> filter (\<lambda>p. fst p = n) (ends net') = []
     \<and> set (ends net') \<subseteq> set (ends net)
     \<and> set outputs' \<subseteq> set outputs \<union> {b. b \<noteq> n \<and> (n, b) \<in> set (ends net)}"
  using assms
proof (induction k arbitrary: net gs outputs)
  case 0
  then show ?case by simp
next
  case (Suc k)
  from Suc.prems(1) obtain c net1 where
    c: "nth_opt (conns_out net n) (int k) = Some c"
    and d: "disconnect net n (cto c) = Inr net1"
    and r: "remove_out kg n k
              (net1, (case gater c of None \<Rightarrow> gs | Some g \<Rightarrow> if kg \<and> g \<noteq> n then gs @ [g] else gs),
               outputs @ [cto c]) = Inr (net', gs', outputs')"
    by (auto simp: bindE_eq_Inr split: option.splits)
  from nth_opt_conns_out(2) [OF c] have mem: "(n, cto c) \<in> set (ends net)" .
  with Suc.prems(3) have ne: "n \<noteq> cto c" by auto
  from disconnect_frame [OF d] ne have
    sn: "same_nodes net net1" and e: "ends net1 = remove1 (n, cto c) (ends net)"
    and sc: "selfconns net1 = selfconns net"
    by auto
  have len: "length (filter (\<lambda>p. fst p = n) (ends net1)) = k"
    using length_filter_remove1 [OF mem, of "\<lambda>p. fst p = n"] Suc.prems(2) e by simp
  have sub: "set (ends net1) \<subseteq> set (ends net)"
    unfolding e by (rule set_remove1_subset)
  with Suc.prems(3) have nn: "(n, n) \<notin> set (ends net1)" by auto
  from Suc.IH [OF r len nn] have ih:
    "same_nodes net1 net'" "selfconns net' = selfconns net1"
    "filter (\<lambda>p. fst p = n) (ends net') = []" "set (ends net') \<subseteq> set (ends net1)"
    "set outputs' \<subseteq> set (outputs @ [cto c]) \<union> {b. b \<noteq> n \<and> (n, b) \<in> set (ends net1)}"
    by auto
  show ?case
    using ih sn sc sub mem ne by (auto intro: same_nodes_trans)
qed

lemma reconnect_step_result:
  assumes "reconnect_step (a, b) (net, cs) = Inr (net', cs')"
  shows "same_nodes net net' \<and> set (ends net') \<subseteq> set (ends net) \<union> {(a, b)}
     \<and> set (selfconns net') \<subseteq> set (selfconns net) \<union> {a}
     \<and> (\<forall>p\<in>set (ends net') - set (ends net). fst p \<noteq> snd p)"
proof (cases "isProjectingTo net a b")
  case True
  with assms show ?thesis by (auto simp: reconnect_step_def)
next
  case False
  with assms obtain r where c: "connect net a b None = Inr (net', r)"
    by (auto simp: reconnect_step_def bindE_eq_Inr)
  show ?thesis
    using connect_frame [OF c] by (cases "a = b") auto
qed

lemma foldE_reconnect_result:
  assumes "foldE reconnect_step ps (net, cs) = Inr (net', cs')"
  shows "same_nodes net net' \<and> set (ends net') \<subseteq> set (ends net) \<union> set ps
     \<and> set (selfconns net') \<subseteq> set (selfconns net) \<union> fst ` set ps
     \<and> (\<forall>p\<in>set (ends net') - set (ends net). fst p \<noteq> snd p)"
  using assms
proof (induction ps arbitrary: net cs)
  case Nil
  then show ?case by simp
next
  case (Cons p ps)
  obtain a b where p: "p = (a, b)" by (cases p)
  from Cons.prems obtain net1 cs1 where
    s: "reconnect_step (a, b) (net, cs) = Inr (net1, cs1)"
    and f: "foldE reconnect_step ps (net1, cs1) = Inr (net', cs')"
    by (auto simp: p split: sum.splits)
  from reconnect_step_result [OF s] Cons.IH [OF f] show ?case
    unfolding p by (auto intro: same_nodes_trans)
qed

lemma regate_frame:
  assumes "regate gs cs net rnd = Inr (net', rnd')"
  shows "same_nodes net net' \<and> ends net' = ends net \<and> selfconns net' = selfconns net"
  using assms
proof (induction gs arbitrary: cs net rnd)
  case Nil
  then show ?case by simp
next
  case (Cons g gs)
  show ?case
  proof (cases "cs = []")
    case True
    with Cons.prems show ?thesis by simp
  next
    case False
    with Cons.prems obtain r net1 where
      g: "gate net g r = Inr net1"
      and r: "regate gs (remove_nth (nat (random_index (rhd rnd) (length cs))) cs) net1 (rtl rnd)
                = Inr (net', rnd')"
      by (auto simp: bindE_eq_Inr split: if_splits option.splits)
    from gate_frame [OF g] Cons.IH [OF r] show ?thesis
      by (auto intro: same_nodes_trans)
  qed
qed

lemma ungate_gated_frame:
  assumes "ungate_gated n k net = Inr net'"
  shows "same_nodes net net' \<and> ends net' = ends net \<and> selfconns net' = selfconns net"
  using assms
proof (induction k arbitrary: net)
  case 0
  then show ?case by simp
next
  case (Suc k)
  from Suc.prems obtain r net1 where
    u: "ungate net r = Inr net1" and g: "ungate_gated n k net1 = Inr net'"
    by (auto simp: bindE_eq_Inr split: option.splits)
  from ungate_frame [OF u] Suc.IH [OF g] show ?case
    by (auto intro: same_nodes_trans)
qed


lemma map_remove_nth: "map f (remove_nth k xs) = remove_nth k (map f xs)"
  by (simp add: remove_nth_def take_map drop_map)

lemma same_nodesD:
  "same_nodes a b \<Longrightarrow> map nid (nodes b) = map nid (nodes a)"
  "same_nodes a b \<Longrightarrow> map ntype (nodes b) = map ntype (nodes a)"
  "same_nodes a b \<Longrightarrow> input_size b = input_size a"
  "same_nodes a b \<Longrightarrow> output_size b = output_size a"
  "same_nodes a b \<Longrightarrow> next_node b = next_node a"
  by (simp_all add: same_nodes_def)

lemma remove_result:
  assumes "remove kg net n rnd = Inr (net', rnd')"
    and "(n, n) \<notin> set (ends net)"
  shows "\<exists>index. indexOf (nodes net) n = Some index
           \<and> map nid (nodes net') = remove_nth index (map nid (nodes net))
           \<and> map ntype (nodes net') = remove_nth index (map ntype (nodes net))"
    and "input_size net' = input_size net \<and> output_size net' = output_size net
           \<and> next_node net' = next_node net"
    and "\<forall>p\<in>set (ends net'). fst p \<noteq> n \<and> snd p \<noteq> n
           \<and> (p \<in> set (ends net)
               \<or> (fst p \<noteq> snd p \<and> (fst p, n) \<in> set (ends net) \<and> (n, snd p) \<in> set (ends net)))"
    and "distinct (selfconns net) \<Longrightarrow> n \<notin> set (selfconns net')"
proof -
  from assms(1) obtain index net1 net2 gs2 inputs net3 gs3 outputs net4 cs net5 net6 net7
    where ix: "indexOf (nodes net) n = Some index"
      and d1: "disconnect net n n = Inr net1"
      and ri: "remove_in kg n (length (conns_in net1 n)) (net1, [], []) = Inr (net2, gs2, inputs)"
      and ro: "remove_out kg n (length (conns_out net2 n)) (net2, gs2, []) = Inr (net3, gs3, outputs)"
      and rc: "foldE reconnect_step (List.product inputs outputs) (net3, []) = Inr (net4, cs)"
      and rg: "regate gs3 cs net4 rnd = Inr (net5, rnd')"
      and ug: "ungate_gated n (length (conns_gated net5 n)) net5 = Inr net6"
      and d2: "disconnect net6 n n = Inr net7"
      and fin: "net' = net7\<lparr> nodes := remove_nth index (nodes net7) \<rparr>"
    by (auto simp: remove_def bindE_eq_Inr split: option.splits)
  from disconnect_frame [OF d1] have 1:
    "same_nodes net net1" "ends net1 = ends net" "selfconns net1 = remove1 n (selfconns net)"
    by auto
  from remove_in_result [OF ri length_conns_in [symmetric]] assms(2) 1 have 2:
    "same_nodes net1 net2" "selfconns net2 = selfconns net1"
    "filter (\<lambda>p. snd p = n) (ends net2) = []" "set (ends net2) \<subseteq> set (ends net)"
    "set inputs \<subseteq> {a. a \<noteq> n \<and> (a, n) \<in> set (ends net)}"
    by auto
  from 2(4) assms(2) have nn2: "(n, n) \<notin> set (ends net2)" by auto
  from remove_out_result [OF ro length_conns_out [symmetric] nn2] 2 have 3:
    "same_nodes net2 net3" "selfconns net3 = selfconns net2"
    "filter (\<lambda>p. fst p = n) (ends net3) = []" "set (ends net3) \<subseteq> set (ends net2)"
    "set outputs \<subseteq> {b. b \<noteq> n \<and> (n, b) \<in> set (ends net)}"
    by auto
  have e3: "\<forall>p\<in>set (ends net3). fst p \<noteq> n \<and> snd p \<noteq> n \<and> p \<in> set (ends net)"
    using 2(3,4) 3(3,4) by (auto simp: filter_empty_conv)
  from foldE_reconnect_result [OF rc] have 4:
    "same_nodes net3 net4" "set (ends net4) \<subseteq> set (ends net3) \<union> set (List.product inputs outputs)"
    "set (selfconns net4) \<subseteq> set (selfconns net3) \<union> fst ` set (List.product inputs outputs)"
    "\<forall>p\<in>set (ends net4) - set (ends net3). fst p \<noteq> snd p"
    by auto
  from regate_frame [OF rg] have 5:
    "same_nodes net4 net5" "ends net5 = ends net4" "selfconns net5 = selfconns net4"
    by auto
  from ungate_gated_frame [OF ug] have 6:
    "same_nodes net5 net6" "ends net6 = ends net5" "selfconns net6 = selfconns net5"
    by auto
  from disconnect_frame [OF d2] have 7:
    "same_nodes net6 net7" "ends net7 = ends net6" "selfconns net7 = remove1 n (selfconns net6)"
    by auto
  have sn: "same_nodes net net7"
    using 1(1) 2(1) 3(1) 4(1) 5(1) 6(1) 7(1) by (blast intro: same_nodes_trans)
  show "\<exists>index. indexOf (nodes net) n = Some index
           \<and> map nid (nodes net') = remove_nth index (map nid (nodes net))
           \<and> map ntype (nodes net') = remove_nth index (map ntype (nodes net))"
    using ix sn by (simp add: fin map_remove_nth same_nodesD)
  show "input_size net' = input_size net \<and> output_size net' = output_size net
           \<and> next_node net' = next_node net"
    using sn by (simp add: fin same_nodesD)
  have e': "ends net' = ends net4"
    using 5(2) 6(2) 7(2) by (simp add: fin ends_def)
  show "\<forall>p\<in>set (ends net'). fst p \<noteq> n \<and> snd p \<noteq> n
           \<and> (p \<in> set (ends net)
               \<or> (fst p \<noteq> snd p \<and> (fst p, n) \<in> set (ends net) \<and> (n, snd p) \<in> set (ends net)))"
  proof
    fix p assume "p \<in> set (ends net')"
    then have p4: "p \<in> set (ends net4)" by (simp add: e')
    show "fst p \<noteq> n \<and> snd p \<noteq> n
           \<and> (p \<in> set (ends net)
               \<or> (fst p \<noteq> snd p \<and> (fst p, n) \<in> set (ends net) \<and> (n, snd p) \<in> set (ends net)))"
    proof (cases "p \<in> set (ends net3)")
      case True
      with e3 show ?thesis by auto
    next
      case False
      with p4 4(2,4) have "p \<in> set (List.product inputs outputs)" "fst p \<noteq> snd p" by auto
      with 2(5) 3(5) show ?thesis by (cases p) auto
    qed
  qed
  show "n \<notin> set (selfconns net')" if "distinct (selfconns net)"
  proof -
    from that have "n \<notin> set (selfconns net1)" by (simp add: 1(3))
    moreover have "n \<notin> fst ` set (List.product inputs outputs)"
      using 2(5) by auto
    ultimately have "n \<notin> set (selfconns net4)"
      using 4(3) 3(2) 2(2) by auto
    then have "n \<notin> set (selfconns net6)" by (simp add: 5(3) 6(3))
    then have "n \<notin> set (selfconns net7)"
      unfolding 7(3) by (metis notin_set_remove1)
    then show ?thesis by (simp add: fin)
  qed
qed

lemmas remove_eval = remove_def disconnect_def ungate_def gate_def ref_gater_def get_node_def
  set_ref_gater_def update_node_def update_conn_def conns_in_def conns_out_def conns_gated_def
  nth_opt_def remove_nth_def reconnect_step_def isProjectingTo_def connect_def
  random_index_def rhd_def rtl_def const_rand_def new_Node_def Let_def default_weight_def



section \<open>Mutations that keep the nodes and add no connection\<close>

lemma disconnect_subset:
  assumes "disconnect net f t = Inr net'"
  shows "same_nodes net net' \<and> set (ends net') \<subseteq> set (ends net)"
proof (cases "f = t")
  case True
  with disconnect_frame(1,3) [OF assms] show ?thesis by simp
next
  case False
  with disconnect_frame(1,2) [OF assms] show ?thesis
    by (simp add: set_remove1_subset)
qed

lemma bindE_InrE:
  assumes "bindE m f = Inr y"
  obtains x where "m = Inr x" "f x = Inr y"
  using assms by (auto simp: bindE_eq_Inr)

lemma Node_mutate_keeps [simp]:
  "nid (fst (Node_mutate M m x rnd)) = nid x" "ntype (fst (Node_mutate M m x rnd)) = ntype x"
  by (cases m; simp add: Node_mutate_def)+

lemma mutate_sub_conn_frame:
  assumes "mutate_sub_conn M m net rnd = Inr (net', rnd')"
  shows "same_nodes net net' \<and> set (ends net') \<subseteq> set (ends net)"
proof -
  from assms have "net' = net \<or> (\<exists>f t. disconnect net f t = Inr net')"
    unfolding mutate_sub_conn_def by (elim bindE_InrE) (auto split: option.split_asm candidates.split_asm conn_ref.split_asm elim: bindE_InrE)
  then show ?thesis
    by (auto dest: disconnect_subset)
qed

lemma mutate_SUB_SELF_CONN_frame:
  assumes "mutate_SUB_SELF_CONN M net rnd = Inr (net', rnd')"
  shows "same_nodes net net' \<and> set (ends net') \<subseteq> set (ends net)"
proof -
  from assms have "net' = net \<or> (\<exists>f t. disconnect net f t = Inr net')"
    unfolding mutate_SUB_SELF_CONN_def by (elim bindE_InrE) (auto split: option.split_asm elim: bindE_InrE)
  then show ?thesis
    by (auto dest: disconnect_subset)
qed

lemma mutate_MOD_WEIGHT_frame:
  assumes "mutate_MOD_WEIGHT M net rnd = Inr (net', rnd')"
  shows "same_nodes net net' \<and> set (ends net') \<subseteq> set (ends net)"
  using assms
  by (auto simp: mutate_MOD_WEIGHT_def Let_def ends_update_conn
      split: option.split_asm conn_ref.split_asm
      intro!: same_nodes_update_node same_nodes_update_conn)

lemma map_list_update_same: "k < length xs \<Longrightarrow> f y = f (xs ! k) \<Longrightarrow> map f (xs[k := y]) = map f xs"
  by (simp add: map_update list_update_same_conv)

lemma mutate_MOD_BIAS_frame:
  assumes "mutate_MOD_BIAS M net rnd = Inr (net', rnd')"
  shows "same_nodes net net' \<and> set (ends net') \<subseteq> set (ends net)"
proof -
  let ?k = "random_non_input net (rhd rnd)"
  from assms obtain x where
    x: "nth_opt (nodes net) ?k = Some x"
    and n: "net' = net\<lparr> nodes := (nodes net)[nat ?k := fst (Node_mutate M MOD_BIAS x (rtl rnd))] \<rparr>"
    by (auto simp: mutate_MOD_BIAS_def split: option.split_asm prod.split_asm)
  from x have "nat ?k < length (nodes net)" "nodes net ! nat ?k = x"
    by (auto simp: nth_opt_eq_Some)
  then show ?thesis
    unfolding n by (simp add: same_nodes_def ends_def map_list_update_same)
qed

lemma mutate_MOD_ACTIVATION_frame:
  assumes "mutate_MOD_ACTIVATION M net rnd = Inr (net', rnd')"
  shows "same_nodes net net' \<and> set (ends net') \<subseteq> set (ends net)"
  using assms unfolding mutate_MOD_ACTIVATION_def
  by (elim bindE_InrE)
    (auto split: option.split_asm prod.split_asm intro!: same_nodes_update_node)

lemma mutate_ADD_SELF_CONN_frame:
  assumes "mutate_ADD_SELF_CONN M net rnd = Inr (net', rnd')"
  shows "same_nodes net net' \<and> set (ends net') \<subseteq> set (ends net)"
proof -
  from assms have "net' = net \<or> (\<exists>n r. connect net n n None = Inr (net', r))"
    unfolding mutate_ADD_SELF_CONN_def by (elim bindE_InrE) (auto split: option.split_asm candidates.split_asm elim: bindE_InrE)
  then show ?thesis
    by (auto dest: connect_frame)
qed

lemma mutate_ADD_GATE_frame:
  assumes "mutate_ADD_GATE M net rnd = Inr (net', rnd')"
  shows "same_nodes net net' \<and> set (ends net') \<subseteq> set (ends net)"
proof -
  from assms have "net' = net \<or> (\<exists>n r. gate net n r = Inr net')"
    unfolding mutate_ADD_GATE_def by (elim bindE_InrE) (auto split: option.split_asm candidates.split_asm if_split_asm elim: bindE_InrE)
  then show ?thesis
    by (auto dest: gate_frame)
qed

lemma mutate_SUB_GATE_frame:
  assumes "mutate_SUB_GATE M net rnd = Inr (net', rnd')"
  shows "same_nodes net net' \<and> set (ends net') \<subseteq> set (ends net)"
proof -
  from assms have "net' = net \<or> (\<exists>r. ungate net r = Inr net')"
    unfolding mutate_SUB_GATE_def by (elim bindE_InrE) (auto split: option.split_asm elim: bindE_InrE)
  then show ?thesis
    by (auto dest: ungate_frame)
qed

lemma mutate_SWAP_NODES_frame:
  assumes "mutate_SWAP_NODES M net rnd = Inr (net', rnd')"
  shows "same_nodes net net' \<and> set (ends net') \<subseteq> set (ends net)"
proof -
  have two: "same_nodes net (update_node n2 (\<lambda>x. x\<lparr> bias := b1, squash := s1 \<rparr>)
               (update_node n1 (\<lambda>x. x\<lparr> bias := b2, squash := s2 \<rparr>) net))"
    for n1 n2 b1 s1 b2 s2
    by (intro same_nodes_trans [OF same_nodes_update_node same_nodes_update_node]) simp_all
  show ?thesis
    using assms unfolding mutate_SWAP_NODES_def
    by (elim bindE_InrE)
      (auto split: option.split_asm candidates.split_asm prod.split_asm simp: two)
qed


section \<open>The invariant\<close>

lemma partitioned_same_nodes: "same_nodes net net' \<Longrightarrow> partitioned net' = partitioned net"
  by (simp add: partitioned_def same_nodes_def)

lemma consistent_transfer:
  assumes "consistent net" "same_nodes net net'"
    and "\<forall>p\<in>set (ends net'). p \<in> set (ends net) \<or>
           (fst p \<noteq> snd p \<and> fst p \<in> set (map nid (nodes net))
            \<and> snd p \<in> set (drop (nat (input_size net)) (map nid (nodes net))))"
  shows "consistent net'"
proof -
  from assms(2) have eq: "map nid (nodes net') = map nid (nodes net)"
    "map ntype (nodes net') = map ntype (nodes net)"
    "input_size net' = input_size net" "output_size net' = output_size net"
    "next_node net' = next_node net"
    by (simp_all add: same_nodes_def)
  from eq(1) have len: "length (nodes net') = length (nodes net)"
    by (metis length_map)
  show ?thesis
    using assms(1,3) unfolding consistent_def partitioned_def eq len
    by blast
qed

lemma consistent_subset:
  "consistent net \<Longrightarrow> same_nodes net net' \<and> set (ends net') \<subseteq> set (ends net) \<Longrightarrow> consistent net'"
  by (rule consistent_transfer) auto

lemma partition_of_initial:
  assumes "0 \<le> i" "0 \<le> o'"
  shows "partition_of i o' (map ntype (initial_nodes i o'))"
  using assms
  by (auto simp: partition_of_def initial_nodes_def nth_opt_def)

lemma consistent_fresh_network:
  assumes "0 \<le> i" "0 \<le> o'"
  shows "consistent (fresh_network i o' rnd)"
proof -
  have ids: "map nid (initial_nodes i o') = [0 ..< nat (i + o')]"
    by (simp add: initial_nodes_def comp_def)
  have e: "ends (fresh_network i o' rnd) = initial_pairs i o'"
    by (simp add: ends_def fresh_network_def dense_from_endpoints)
  have "fst p \<noteq> snd p \<and> fst p \<in> set [0 ..< nat (i + o')]
        \<and> snd p \<in> set (drop (nat i) [0 ..< nat (i + o')])"
    if "p \<in> set (initial_pairs i o')" for p
    using that assms by (auto simp: initial_pairs_product drop_upt add.commute)
  moreover have "nodes (fresh_network i o' rnd) = initial_nodes i o'"
    "input_size (fresh_network i o' rnd) = i" "output_size (fresh_network i o' rnd) = o'"
    "next_node (fresh_network i o' rnd) = nat (i + o')"
    by (simp_all add: fresh_network_def)
  ultimately show ?thesis
    using assms partition_of_initial [OF assms]
    by (simp add: consistent_def partitioned_def e ids length_initial_nodes)
qed


section \<open>ADD\_CONN and ADD\_BACK\_CONN\<close>

lemma pair_step_result:
  assumes "pair_step net (i, j) cs = Inr cs'" "(a, Some b) \<in> set cs'"
  shows "(a, Some b) \<in> set cs \<or>
     (\<exists>x y. nth_opt (nodes net) i = Some x \<and> nth_opt (nodes net) j = Some y
            \<and> a = nid x \<and> b = nid y)"
  using assms
  by (auto simp: pair_step_def split: option.split_asm if_split_asm)

lemma foldE_pair_step_result:
  assumes "foldE (pair_step net) ps cs = Inr cs'" "(a, Some b) \<in> set cs'"
  shows "(a, Some b) \<in> set cs \<or>
     (\<exists>i j x y. (i, j) \<in> set ps \<and> nth_opt (nodes net) i = Some x
            \<and> nth_opt (nodes net) j = Some y \<and> a = nid x \<and> b = nid y)"
  using assms
proof (induction ps arbitrary: cs)
  case Nil
  then show ?case by simp
next
  case (Cons p ps)
  obtain i j where p: "p = (i, j)" by (cases p)
  from Cons.prems(1) obtain cs1 where
    s: "pair_step net (i, j) cs = Inr cs1" and f: "foldE (pair_step net) ps cs1 = Inr cs'"
    by (auto simp: p split: sum.split_asm)
  from Cons.IH [OF f Cons.prems(2)] show ?case
  proof
    assume "(a, Some b) \<in> set cs1"
    from pair_step_result [OF s this] show ?thesis
      unfolding p by auto
  next
    assume "\<exists>i j x y. (i, j) \<in> set ps \<and> nth_opt (nodes net) i = Some x
            \<and> nth_opt (nodes net) j = Some y \<and> a = nid x \<and> b = nid y"
    then show ?thesis by auto
  qed
qed

lemma add_conn_indices_mem:
  "(i, j) \<in> set (add_conn_indices net) \<Longrightarrow> i < j \<and> input_size net \<le> j"
  by (auto simp: add_conn_indices_def)

lemma add_back_conn_indices_mem:
  "(i, j) \<in> set (add_back_conn_indices net) \<Longrightarrow> j < i \<and> input_size net \<le> j"
  by (auto simp: add_back_conn_indices_def)

lemma possible_simps:
  "possible M self SUB_NODE =
     Inr (nonempty (map nid (filter (\<lambda>x. ntype x \<noteq> Output \<and> ntype x \<noteq> Input) (nodes self))) CNodes)"
  "possible M self ADD_CONN =
     bindE (foldE (pair_step self) (add_conn_indices self) []) (\<lambda>cs. Inr (nonempty cs CPairs))"
  "possible M self ADD_BACK_CONN =
     bindE (foldE (pair_step self) (add_back_conn_indices self) []) (\<lambda>cs. Inr (nonempty cs CPairs))"
  "possible M self SUB_CONN =
     Inr (nonempty (map (\<lambda>c. CRef (cid c))
            (filter (\<lambda>c. not_disabling self c \<and>
                indexOf_int (nodes self) (cto c) > indexOf_int (nodes self) (cfrom c))
              (connections self))) CConns)"
  "possible M self SUB_BACK_CONN =
     Inr (nonempty (map (\<lambda>c. CRef (cid c))
            (filter (\<lambda>c. not_disabling self c \<and>
                indexOf_int (nodes self) (cfrom c) > indexOf_int (nodes self) (cto c))
              (connections self))) CConns)"
  "possible M self ADD_SELF_CONN =
     bindE (foldE (self_step self) [input_size self .. int (length (nodes self)) - 1] [])
       (\<lambda>cs. Inr (nonempty cs CNodes))"
  "possible M self ADD_GATE =
     Inr (nonempty (filter (\<lambda>r. ref_gater self r = None) (all_refs self)) CConns)"
  "possible M self MOD_ACTIVATION =
     Inr (if activation_mutateOutput M \<or>
             int (length (nodes self)) > input_size self + output_size self
          then Some CEmpty else None)"
  "possible M self SUB_SELF_CONN = Inr (if length (selfconns self) > 0 then Some CEmpty else None)"
  "possible M self SUB_GATE = Inr (if length (gates self) > 0 then Some CEmpty else None)"
  "possible M self ADD_NODE = Inr None"
  "possible M self MOD_WEIGHT = Inr None"
  "possible M self MOD_BIAS = Inr None"
  by (simp_all add: possible_def)

lemma possible_SWAP_NODES:
  "possible M self SWAP_NODES =
     Inr (if (int (length (nodes self)) - 1) - input_size self
               - (if swap_mutateOutput M then 0 else output_size self) < 2
          then None
          else if length (swap_eligible (swap_mutateOutput M) self) \<ge> 2
               then Some (CNodes (map nid (swap_eligible (swap_mutateOutput M) self)))
               else None)"
  by (simp add: possible_def swap_eligible_def Let_def)

lemma nonempty_eq_Some: "nonempty xs C = Some c \<longleftrightarrow> xs \<noteq> [] \<and> c = C xs"
  by (auto simp: nonempty_def)

text \<open>A pair that \<open>possible\<close> proposes joins two different positions of the node list,
  the second one behind the inputs.\<close>

lemma possible_pairs:
  assumes "possible M net m = Inr (Some (CPairs cs))" "(a, Some b) \<in> set cs"
  shows "\<exists>i j x y. i \<noteq> j \<and> input_size net \<le> j \<and> nth_opt (nodes net) i = Some x
            \<and> nth_opt (nodes net) j = Some y \<and> a = nid x \<and> b = nid y"
proof -
  have "foldE (pair_step net) (add_conn_indices net) [] = Inr cs
      \<or> foldE (pair_step net) (add_back_conn_indices net) [] = Inr cs"
    using assms(1)
    by (cases m)
      (simp_all add: possible_simps possible_SWAP_NODES nonempty_eq_Some bindE_eq_Inr
        split: if_split_asm)
  then obtain ps where f: "foldE (pair_step net) ps [] = Inr cs"
    and ps: "\<forall>p\<in>set ps. fst p \<noteq> snd p \<and> input_size net \<le> snd p"
    using add_conn_indices_mem [of _ _ net] add_back_conn_indices_mem [of _ _ net]
    by (elim disjE) (fastforce+)
  from foldE_pair_step_result [OF f assms(2)] obtain i j x y where
    "(i, j) \<in> set ps" "nth_opt (nodes net) i = Some x" "nth_opt (nodes net) j = Some y"
    "a = nid x" "b = nid y"
    by auto
  with ps show ?thesis by fastforce
qed

lemma nth_opt_distinct_ids:
  assumes "distinct (map nid xs)" "nth_opt xs i = Some x" "nth_opt xs j = Some y" "i \<noteq> j"
  shows "nid x \<noteq> nid y"
proof -
  from assms(2,3) have i: "0 \<le> i" "nat i < length xs" "xs ! nat i = x"
    and j: "0 \<le> j" "nat j < length xs" "xs ! nat j = y"
    by (auto simp: nth_opt_eq_Some)
  from i(1) j(1) assms(4) have "nat i \<noteq> nat j" by simp
  with assms(1) i(2) j(2) have "map nid xs ! nat i \<noteq> map nid xs ! nat j"
    unfolding distinct_conv_nth by simp
  with i j show ?thesis by simp
qed

lemma nth_opt_in_drop:
  assumes "nth_opt xs j = Some y" "k \<le> j"
  shows "f y \<in> set (drop (nat k) (map f xs))"
proof -
  from assms have j: "0 \<le> j" "nat j < length xs" "xs ! nat j = y"
    by (auto simp: nth_opt_eq_Some)
  have "nat k \<le> nat j" using assms(2) by simp
  then have "map f xs ! nat j \<in> set (drop (nat k) (map f xs))"
    using j(2) by (auto simp: in_set_conv_nth intro!: exI [of _ "nat j - nat k"])
  with j show ?thesis by simp
qed

lemma mutate_add_pair_consistent:
  assumes "mutate_add_pair M m net rnd = Inr (net', rnd')" "consistent net"
  shows "consistent net'"
proof -
  from assms(1) have "net' = net \<or>
      (\<exists>cs a b r. possible M net m = Inr (Some (CPairs cs)) \<and> (a, Some b) \<in> set cs
          \<and> connect net a b None = Inr (net', r))"
    unfolding mutate_add_pair_def
    by (elim bindE_InrE)
      (auto split: option.split_asm candidates.split_asm prod.split_asm
        elim!: bindE_InrE dest: nth_opt_in_set)
  then show ?thesis
  proof
    assume "net' = net"
    with assms(2) show ?thesis by simp
  next
    assume "\<exists>cs a b r. possible M net m = Inr (Some (CPairs cs)) \<and> (a, Some b) \<in> set cs
          \<and> connect net a b None = Inr (net', r)"
    then obtain cs a b r where p: "possible M net m = Inr (Some (CPairs cs))"
      and mem: "(a, Some b) \<in> set cs" and c: "connect net a b None = Inr (net', r)"
      by blast
    from possible_pairs [OF p mem] obtain i j x y where
      ij: "i \<noteq> j" "input_size net \<le> j" "nth_opt (nodes net) i = Some x"
      "nth_opt (nodes net) j = Some y" "a = nid x" "b = nid y"
      by blast
    from assms(2) have d: "distinct (map nid (nodes net))"
      by (simp add: consistent_def)
    from nth_opt_distinct_ids [OF d ij(3,4,1)] ij(5,6) have ne: "a \<noteq> b" by simp
    have a_in: "a \<in> set (map nid (nodes net))"
      using nth_opt_in_set [OF ij(3)] ij(5) by auto
    have b_in: "b \<in> set (drop (nat (input_size net)) (map nid (nodes net)))"
      using nth_opt_in_drop [OF ij(4,2), of nid] ij(6) by simp
    from connect_frame(1,2) [OF c] ne have
      "same_nodes net net'" "ends net' = ends net @ [(a, b)]"
      by auto
    with ne a_in b_in show ?thesis
      by (intro consistent_transfer [OF assms(2)]) auto
  qed
qed


section \<open>Taking a node out of the list and putting one in\<close>

lemma length_remove_nth: "k < length xs \<Longrightarrow> length (remove_nth k xs) = length xs - 1"
  by (simp add: remove_nth_def)

lemma nth_remove_nth:
  "k < length xs \<Longrightarrow> j < length xs - 1 \<Longrightarrow>
   remove_nth k xs ! j = (if j < k then xs ! j else xs ! Suc j)"
  by (auto simp: remove_nth_def nth_append min_def)

lemma set_remove_nth_subset: "set (remove_nth k xs) \<subseteq> set xs"
  by (auto simp: remove_nth_def dest: in_set_takeD in_set_dropD)

lemma distinct_remove_nth: "distinct xs \<Longrightarrow> distinct (remove_nth k xs)"
  using set_take_disj_set_drop_if_distinct [of xs k "Suc k"]
  by (simp add: remove_nth_def)

lemma partition_of_remove:
  assumes "partition_of i o' ts" "0 \<le> i" "0 \<le> o'" "k < length ts"
    and "ts ! k \<noteq> Input" "ts ! k \<noteq> Output"
  shows "nat i \<le> k" "int k < int (length ts) - o'" "partition_of i o' (remove_nth k ts)"
proof -
  show 1: "nat i \<le> k"
  proof (rule ccontr)
    assume "\<not> nat i \<le> k"
    then have "0 \<le> int k \<and> int k < i" by simp
    with assms(1) have "nth_opt ts (int k) = Some Input" by (simp add: partition_of_def)
    with assms(4,5) show False by (simp add: nth_opt_def)
  qed
  show 2: "int k < int (length ts) - o'"
  proof (rule ccontr)
    assume "\<not> int k < int (length ts) - o'"
    with assms(4) have "int (length ts) - o' \<le> int k \<and> int k < int (length ts)" by simp
    with assms(1) have "nth_opt ts (int k) = Some Output" by (simp add: partition_of_def)
    with assms(4,6) show False by (simp add: nth_opt_def)
  qed
  show "partition_of i o' (remove_nth k ts)"
    unfolding partition_of_def
  proof (intro conjI allI impI)
    fix j assume j: "0 \<le> j \<and> j < i"
    with assms(1) have "nth_opt ts j = Some Input" by (simp add: partition_of_def)
    moreover from j 1 have "nat j < k" by linarith
    ultimately show "nth_opt (remove_nth k ts) j = Some Input"
      using assms(4) j by (auto simp: nth_opt_def length_remove_nth nth_remove_nth)
  next
    fix j assume j: "int (length (remove_nth k ts)) - o' \<le> j \<and> j < int (length (remove_nth k ts))"
    with assms(4) have j': "int (length ts) - o' \<le> j + 1 \<and> j + 1 < int (length ts)"
      by (simp add: length_remove_nth)
    with assms(1) have "nth_opt ts (j + 1) = Some Output" by (simp add: partition_of_def)
    moreover from j' 2 have "int k \<le> j" by linarith
    ultimately show "nth_opt (remove_nth k ts) j = Some Output"
      using assms(4) j' by (auto simp: nth_opt_def length_remove_nth nth_remove_nth nat_add_distrib)
  qed
qed

lemma partition_of_insert:
  assumes "partition_of i o' ts" "0 \<le> i" "0 \<le> o'" "i \<le> int m" "int m \<le> int (length ts) - o'"
  shows "partition_of i o' (take m ts @ [t] @ drop m ts)"
  unfolding partition_of_def
proof (intro conjI allI impI)
  have m: "m \<le> length ts" using assms(3,5) by linarith
  fix j assume j: "0 \<le> j \<and> j < i"
  with assms(1) have "nth_opt ts j = Some Input" by (simp add: partition_of_def)
  then have a: "nat j < length ts" "ts ! nat j = Input"
    by (auto simp: nth_opt_eq_Some)
  from j assms(4) have b: "nat j < m" by linarith
  have "(take m ts @ [t] @ drop m ts) ! nat j = ts ! nat j"
    using a b m by (simp add: nth_append)
  then show "nth_opt (take m ts @ [t] @ drop m ts) j = Some Input"
    using a j by (simp add: nth_opt_eq_Some)
next
  have m: "m \<le> length ts" using assms(3,5) by linarith
  let ?ys = "take m ts @ [t] @ drop m ts"
  have len: "length ?ys = Suc (length ts)" using m by simp
  fix j assume j: "int (length ?ys) - o' \<le> j \<and> j < int (length ?ys)"
  then have j': "int (length ts) - o' \<le> j - 1 \<and> j - 1 < int (length ts)"
    unfolding len by simp
  with assms(1) have "nth_opt ts (j - 1) = Some Output" by (simp add: partition_of_def)
  then have a: "0 \<le> j - 1" "nat (j - 1) < length ts" "ts ! nat (j - 1) = Output"
    by (auto simp: nth_opt_eq_Some)
  from j' assms(5) have b: "int m < j" by linarith
  then have c: "nat j = Suc m + (nat (j - 1) - m)" "m \<le> nat (j - 1)" by linarith+
  have "?ys ! nat j = drop m ts ! (nat (j - 1) - m)"
    using m unfolding c(1) by (simp add: nth_append)
  also have "\<dots> = ts ! nat (j - 1)"
    using c(2) a(2) by simp
  finally have "?ys ! nat j = Output" using a(3) by simp
  moreover have "0 \<le> j" "nat j < length ?ys" using a(1,2) len by linarith+
  ultimately show "nth_opt ?ys j = Some Output"
    by (simp add: nth_opt_eq_Some del: append.simps)
qed

lemma in_drop_remove_nth:
  assumes "x \<in> set (drop m xs)" "x \<noteq> xs ! k" "m \<le> k" "k < length xs"
  shows "x \<in> set (drop m (remove_nth k xs))"
proof -
  from assms(1) obtain j0 where j0: "j0 < length xs - m" "xs ! (m + j0) = x"
    by (auto simp: in_set_conv_nth)
  define j where "j = m + j0"
  have j: "m \<le> j" "j < length xs" "xs ! j = x"
    using j0 by (auto simp: j_def)
  with assms(2) have jk: "j \<noteq> k" by auto
  define j' where "j' = (if j < k then j else j - 1)"
  have b: "j' < length xs - 1" "m \<le> j'" using j jk assms(3,4) by (auto simp: j'_def)
  have "remove_nth k xs ! j' = x"
    using j jk assms(4) b by (auto simp: nth_remove_nth j'_def)
  moreover have "m + (j' - m) = j'" using b by simp
  ultimately have "drop m (remove_nth k xs) ! (j' - m) = x"
    using b assms(4) by (simp add: length_remove_nth)
  moreover have "j' - m < length (drop m (remove_nth k xs))"
    using b assms(4) by (simp add: length_remove_nth)
  ultimately show ?thesis
    by (metis nth_mem)
qed

lemma in_drop_insert:
  assumes "x \<in> set (drop m xs) \<or> x = t" "m \<le> k" "k \<le> length xs"
  shows "x \<in> set (drop m (take k xs @ [t] @ drop k xs))"
proof -
  have 1: "drop m (take k xs @ [t] @ drop k xs) = drop m (take k xs) @ [t] @ drop k xs"
    using assms(2,3) by simp
  have a: "drop m (take k xs) = take (k - m) (drop m xs)"
    using assms(2) by (simp add: take_drop)
  have b: "drop k xs = drop (k - m) (drop m xs)"
    using assms(2) by simp
  have "set (drop m xs) = set (take (k - m) (drop m xs)) \<union> set (drop (k - m) (drop m xs))"
    by (metis append_take_drop_id set_append)
  then have "set (drop m xs) = set (drop m (take k xs)) \<union> set (drop k xs)"
    using a b by simp
  with 1 assms(1) show ?thesis by auto
qed


section \<open>SUB\_NODE\<close>

lemma indexOf_Some: "indexOf xs n = Some k \<Longrightarrow> k < length xs \<and> nid (xs ! k) = n"
proof (induction xs arbitrary: k)
  case Nil
  then show ?case by simp
next
  case (Cons x xs)
  then show ?case by (cases k) (auto split: if_split_asm)
qed

lemma indexOf_distinct:
  "distinct (map nid xs) \<Longrightarrow> k < length xs \<Longrightarrow> indexOf xs (nid (xs ! k)) = Some k"
proof (induction xs arbitrary: k)
  case Nil
  then show ?case by simp
next
  case (Cons x xs)
  show ?case
  proof (cases k)
    case 0
    then show ?thesis by simp
  next
    case (Suc j)
    with Cons.prems have "nid (xs ! j) \<in> set (map nid xs)" by simp
    with Cons.prems have "nid x \<noteq> nid (xs ! j)" by auto
    with Cons Suc show ?thesis by simp
  qed
qed

lemma indexOf_in_drop:
  assumes "distinct (map nid xs)" "n \<in> set (drop m (map nid xs))"
  shows "\<exists>j. indexOf xs n = Some j \<and> m \<le> j \<and> j < length xs"
proof -
  from assms(2) obtain j0 where "j0 < length xs - m" "map nid xs ! (m + j0) = n"
    by (auto simp: in_set_conv_nth)
  then have "m + j0 < length xs" "nid (xs ! (m + j0)) = n" by auto
  with indexOf_distinct [OF assms(1), of "m + j0"] show ?thesis by auto
qed

lemma in_set_remove_nth:
  assumes "x \<in> set xs" "x \<noteq> xs ! k" "k < length xs"
  shows "x \<in> set (remove_nth k xs)"
  using in_drop_remove_nth [of x 0 xs k] assms by simp

lemma sample_Some: "sample xs rnd = (Some x, rnd') \<Longrightarrow> x \<in> set xs"
  by (auto simp: sample_def split: if_split_asm dest: nth_opt_in_set)

lemma mutate_SUB_NODE_consistent:
  assumes "mutate_SUB_NODE M net rnd = Inr (net', rnd')" "consistent net"
  shows "consistent net'"
proof -
  from assms(1) have "net' = net \<or>
      (\<exists>cs n rnd1. possible M net SUB_NODE = Inr (Some (CNodes cs)) \<and> n \<in> set cs
          \<and> remove (keep_gates M) net n rnd1 = Inr (net', rnd'))"
    unfolding mutate_SUB_NODE_def
    by (elim bindE_InrE)
      (auto split: option.split_asm candidates.split_asm prod.split_asm dest: sample_Some)
  then show ?thesis
  proof
    assume "net' = net"
    with assms(2) show ?thesis by simp
  next
    assume "\<exists>cs n rnd1. possible M net SUB_NODE = Inr (Some (CNodes cs)) \<and> n \<in> set cs
          \<and> remove (keep_gates M) net n rnd1 = Inr (net', rnd')"
    then obtain cs n rnd1 where p: "possible M net SUB_NODE = Inr (Some (CNodes cs))"
      and mem: "n \<in> set cs" and r: "remove (keep_gates M) net n rnd1 = Inr (net', rnd')"
      by blast
    let ?ids = "map nid (nodes net)" and ?ts = "map ntype (nodes net)"
    let ?i = "input_size net" and ?o = "output_size net"
    from assms(2) have c: "0 \<le> ?i" "0 \<le> ?o" "?i + ?o \<le> int (length (nodes net))"
      "partition_of ?i ?o ?ts" "distinct ?ids" "\<forall>n\<in>set ?ids. n < next_node net"
      "\<forall>p\<in>set (ends net). fst p \<noteq> snd p \<and> fst p \<in> set ?ids
           \<and> snd p \<in> set (drop (nat ?i) ?ids)"
      by (simp_all add: consistent_def partitioned_def)
    from p mem obtain x where x: "x \<in> set (nodes net)" "nid x = n"
      "ntype x \<noteq> Output" "ntype x \<noteq> Input"
      by (auto simp: possible_simps nonempty_eq_Some)
    from c(7) have nn: "(n, n) \<notin> set (ends net)" by auto
    from remove_result(1) [OF r nn] obtain index where
      ix: "indexOf (nodes net) n = Some index"
      and ids': "map nid (nodes net') = remove_nth index ?ids"
      and ts': "map ntype (nodes net') = remove_nth index ?ts"
      by blast
    from remove_result(2) [OF r nn] have sz: "input_size net' = ?i" "output_size net' = ?o"
      "next_node net' = next_node net"
      by simp_all
    from indexOf_Some [OF ix] have k: "index < length (nodes net)" "nid (nodes net ! index) = n"
      by simp_all
    have "inj_on nid (set (nodes net))" using c(5) by (simp add: distinct_map)
    with x k have "nodes net ! index = x" by (auto dest: inj_onD)
    with x k have ty: "?ts ! index \<noteq> Input" "?ts ! index \<noteq> Output" by simp_all
    from partition_of_remove [OF c(4) c(1,2) _ ty] k have pr:
      "nat ?i \<le> index" "int index < int (length ?ts) - ?o" "partition_of ?i ?o (remove_nth index ?ts)"
      by simp_all
    have len': "length (nodes net') = length (nodes net) - 1"
      using ids' k(1) by (metis length_map length_remove_nth)
    have idk: "?ids ! index = n" using k by simp
    have e: "fst p \<noteq> snd p \<and> fst p \<in> set (remove_nth index ?ids)
           \<and> snd p \<in> set (drop (nat ?i) (remove_nth index ?ids))"
      if "p \<in> set (ends net')" for p
    proof -
      from remove_result(3) [OF r nn] that have q: "fst p \<noteq> n" "snd p \<noteq> n"
        "p \<in> set (ends net) \<or> (fst p \<noteq> snd p \<and> (fst p, n) \<in> set (ends net)
            \<and> (n, snd p) \<in> set (ends net))"
        by blast+
      from q(3) c(7) have "fst p \<noteq> snd p" "fst p \<in> set ?ids"
        "snd p \<in> set (drop (nat ?i) ?ids)"
        by fastforce+
      with q(1,2) idk k(1) pr(1) show ?thesis
        by (auto intro!: in_set_remove_nth in_drop_remove_nth)
    qed
    have "\<forall>n\<in>set (remove_nth index ?ids). n < next_node net"
      using c(6) set_remove_nth_subset [of index ?ids] by blast
    with c(1,2) pr e k(1) show ?thesis
      unfolding consistent_def partitioned_def sz ids' ts' len'
      by (auto simp: distinct_remove_nth [OF c(5)])
  qed
qed


section \<open>ADD\_NODE\<close>

lemma splice_insert_inside:
  "0 \<le> k \<Longrightarrow> k \<le> int (length xs) \<Longrightarrow>
   splice_insert k x xs = take (nat k) xs @ [x] @ drop (nat k) xs"
  by (simp add: splice_insert_def)

lemma mutate_ADD_NODE_consistent:
  assumes "mutate_ADD_NODE M net rnd = Inr (net', rnd')" "consistent net"
  shows "consistent net'"
proof -
  let ?ids = "map nid (nodes net)" and ?ts = "map ntype (nodes net)"
  let ?i = "input_size net" and ?o = "output_size net"
  from assms(2) have c: "0 \<le> ?i" "0 \<le> ?o" "?i + ?o \<le> int (length (nodes net))"
    "partition_of ?i ?o ?ts" "distinct ?ids" "\<forall>n\<in>set ?ids. n < next_node net"
    "\<forall>p\<in>set (ends net). fst p \<noteq> snd p \<and> fst p \<in> set ?ids
         \<and> snd p \<in> set (drop (nat ?i) ?ids)"
    by (simp_all add: consistent_def partitioned_def)
  from assms(1) obtain c net1 where
    cc: "nth_opt (connections net) (random_index (rhd rnd) (length (connections net))) = Some c"
    and d: "disconnect net (cfrom c) (cto c) = Inr net1"
    by (auto simp: mutate_ADD_NODE_def elim!: bindE_InrE split: option.split_asm)
  define n where "n = next_node net1"
  define node where "node = fst (if randomActivation M
                      then Node_mutate M MOD_ACTIVATION (new_Node n Hidden) (rtl rnd)
                      else (new_Node n Hidden, rtl rnd))"
  define minBound where
    "minBound = min (indexOf_int (nodes net1) (cto c)) (int (length (nodes net1)) - output_size net1)"
  define net2 where
    "net2 = net1\<lparr> nodes := splice_insert minBound node (nodes net1), next_node := Suc n \<rparr>"
  from assms(1) cc d have "\<exists>net3 r1 net4 r2.
      connect net2 (cfrom c) n None = Inr (net3, r1)
      \<and> connect net3 n (cto c) None = Inr (net4, r2)
      \<and> (net' = net4 \<or> (\<exists>g r. gate net4 g r = Inr net'))"
    unfolding mutate_ADD_NODE_def net2_def minBound_def node_def n_def
    by (auto simp: Let_def elim!: bindE_InrE split: option.split_asm)
  then obtain net3 r1 net4 r2 where
    c1: "connect net2 (cfrom c) n None = Inr (net3, r1)"
    and c2: "connect net3 n (cto c) None = Inr (net4, r2)"
    and g: "net' = net4 \<or> (\<exists>g r. gate net4 g r = Inr net')"
    by blast
  from disconnect_subset [OF d] have s1: "same_nodes net net1" "set (ends net1) \<subseteq> set (ends net)"
    by simp_all
  from s1(1) have eq1: "map nid (nodes net1) = ?ids" "map ntype (nodes net1) = ?ts"
    "input_size net1 = ?i" "output_size net1 = ?o" "next_node net1 = next_node net"
    by (simp_all add: same_nodes_def)
  from eq1(1) have len1: "length (nodes net1) = length (nodes net)" by (metis length_map)
  have cmem: "(cfrom c, cto c) \<in> set (ends net)"
    using nth_opt_in_set [OF cc] by (auto simp: ends_def)
  with c(7) have ce: "cfrom c \<noteq> cto c" "cfrom c \<in> set ?ids"
    "cto c \<in> set (drop (nat ?i) ?ids)"
    by fastforce+
  have d1: "distinct (map nid (nodes net1))" using c(5) eq1(1) by simp
  from indexOf_in_drop [OF d1, of "cto c" "nat ?i"] ce(3) eq1(1) obtain j where
    j: "indexOf (nodes net1) (cto c) = Some j" "nat ?i \<le> j" "j < length (nodes net1)"
    by auto
  have mb: "?i \<le> minBound" "minBound \<le> int (length (nodes net)) - ?o"
    using j c(1,3) by (auto simp: minBound_def indexOf_int_def eq1 len1)
  define m where "m = nat minBound"
  have m: "?i \<le> int m" "int m \<le> int (length (nodes net)) - ?o" "m \<le> length (nodes net)"
    "nat ?i \<le> m"
    using mb c(1,2) by (auto simp: m_def)
  have nodes2: "nodes net2 = take m (nodes net1) @ [node] @ drop m (nodes net1)"
    using mb c(1,2) unfolding net2_def m_def
    by (simp add: splice_insert_inside len1)
  have nd: "nid node = n" "ntype node = Hidden"
    by (simp_all add: node_def)
  let ?ids2 = "take m ?ids @ [n] @ drop m ?ids" and ?ts2 = "take m ?ts @ [Hidden] @ drop m ?ts"
  have ids2: "map nid (nodes net2) = ?ids2" and ts2: "map ntype (nodes net2) = ?ts2"
    unfolding nodes2 by (simp_all add: nd take_map drop_map eq1 [symmetric])
  have sz2: "input_size net2 = ?i" "output_size net2 = ?o" "next_node net2 = Suc n"
    "ends net2 = ends net1"
    by (simp_all add: net2_def eq1 ends_def)
  have n_eq: "n = next_node net" by (simp add: n_def eq1)
  have fresh: "n \<notin> set ?ids" using c(6) n_eq by auto
  with ce have ne: "cfrom c \<noteq> n" "n \<noteq> cto c"
    by (auto dest: in_set_dropD)
  from connect_frame(1,2) [OF c1] ne have s3: "same_nodes net2 net3"
    "ends net3 = ends net2 @ [(cfrom c, n)]"
    by auto
  from connect_frame(1,2) [OF c2] ne have s4: "same_nodes net3 net4"
    "ends net4 = ends net3 @ [(n, cto c)]"
    by auto
  from g have s5: "same_nodes net4 net'" "ends net' = ends net4"
    by (auto dest: gate_frame)
  have sn: "same_nodes net2 net'"
    using s3(1) s4(1) s5(1) by (blast intro: same_nodes_trans)
  then have eq': "map nid (nodes net') = ?ids2" "map ntype (nodes net') = ?ts2"
    "input_size net' = ?i" "output_size net' = ?o" "next_node net' = Suc n"
    by (simp_all add: same_nodes_def ids2 ts2 sz2)
  have "length ?ids2 = Suc (length ?ids)" using m(3) by simp
  then have len': "length (nodes net') = Suc (length (nodes net))"
    using eq'(1) by (metis length_map)
  have e': "set (ends net') \<subseteq> set (ends net) \<union> {(cfrom c, n), (n, cto c)}"
    using s1(2) by (auto simp: s5(2) s4(2) s3(2) sz2(4))
  have "set (take m ?ids) \<union> set (drop m ?ids) = set ?ids"
    by (metis append_take_drop_id set_append)
  then have set2: "set ?ids2 = insert n (set ?ids)"
    by auto
  have dr: "x \<in> set (drop (nat ?i) ?ids2)" if "x \<in> set (drop (nat ?i) ?ids) \<or> x = n" for x
    using in_drop_insert [of x "nat ?i" ?ids n m] that m(3,4) by simp
  have in2: "x \<in> set ?ids2" if "x \<in> set ?ids \<or> x = n" for x
    using that set2 by blast
  have e: "fst p \<noteq> snd p \<and> fst p \<in> set ?ids2 \<and> snd p \<in> set (drop (nat ?i) ?ids2)"
    if "p \<in> set (ends net')" for p
  proof -
    from that e' consider "p \<in> set (ends net)" | "p = (cfrom c, n)" | "p = (n, cto c)"
      by auto
    then show ?thesis
    proof cases
      case 1
      with c(7) have "fst p \<noteq> snd p" "fst p \<in> set ?ids" "snd p \<in> set (drop (nat ?i) ?ids)"
        by blast+
      then show ?thesis by (blast intro: in2 dr)
    next
      case 2
      then have "fst p = cfrom c" "snd p = n" by simp_all
      with ne ce show ?thesis by (metis in2 dr)
    next
      case 3
      then have "fst p = n" "snd p = cto c" by simp_all
      with ne ce show ?thesis by (metis in2 dr)
    qed
  qed
  have dist: "distinct ?ids2"
  proof -
    have "distinct (take m ?ids)" "distinct (drop m ?ids)"
      "set (take m ?ids) \<inter> set (drop m ?ids) = {}"
      using c(5) set_take_disj_set_drop_if_distinct [of ?ids m m] by simp_all
    then show ?thesis using fresh by (auto dest: in_set_takeD in_set_dropD)
  qed
  have bound: "\<forall>k\<in>set ?ids2. k < Suc n"
    unfolding set2 using c(6) n_eq by (simp add: less_Suc_eq)
  have part: "partition_of ?i ?o ?ts2"
    using partition_of_insert [OF c(4) c(1,2), of m Hidden] m(1,2) by simp
  show ?thesis
    unfolding consistent_def partitioned_def eq' len'
    using c(1,2,3) part dist bound e by auto
qed


section \<open>Every mutation keeps the invariant\<close>

lemma mutate_consistent:
  assumes "mutate M net arg rnd = Inr (net', rnd')" "consistent net"
  shows "consistent net'"
proof (cases arg)
  case MUndefined
  with assms show ?thesis by (simp add: mutate_def)
next
  case MNull
  with assms show ?thesis by (simp add: mutate_def)
next
  case (Method m)
  with assms(1) show ?thesis
    by (cases m)
      (auto simp: mutate_def
        intro: consistent_subset [OF assms(2)] mutate_ADD_NODE_consistent [OF _ assms(2)]
          mutate_SUB_NODE_consistent [OF _ assms(2)] mutate_add_pair_consistent [OF _ assms(2)]
        dest: mutate_sub_conn_frame mutate_MOD_WEIGHT_frame mutate_MOD_BIAS_frame
          mutate_MOD_ACTIVATION_frame mutate_ADD_SELF_CONN_frame mutate_SUB_SELF_CONN_frame
          mutate_ADD_GATE_frame mutate_SUB_GATE_frame mutate_SWAP_NODES_frame)
qed

lemma reachable_consistent: "reachable net \<Longrightarrow> consistent net"
proof (induction rule: reachable.induct)
  case (constructed i o' rnd net rnd')
  then show ?case by (auto simp: Network_Some consistent_fresh_network)
next
  case (mutated net M arg rnd net' rnd')
  then show ?case by (blast intro: mutate_consistent)
qed

lemmas mutate_eval = mutate_def mutate_ADD_NODE_def disconnect_def connect_def
  isProjectingTo_def ungate_def gate_def ref_gater_def get_node_def set_ref_gater_def
  update_node_def update_conn_def nth_opt_def remove_first.simps indexOf_int_def
  splice_insert_def random_index_def rhd_def rtl_def const_rand_def new_Node_def Let_def
  default_weight_def



subsection \<open>What \<open>remove\<close> leaves of the removed node\<close>

text \<open>
  When no ordinary connection joins a node to itself and no node is twice in
  \<open>selfconns\<close>, the network that \<open>remove\<close> returns has no connection from or to the
  removed node, and \<open>selfconns\<close> does not hold it.
\<close>

lemma remove_clears_single_self_connection:
  assumes "remove kg net n rnd = Inr (net', rnd')"
    and "\<forall>c\<in>set (connections net). cfrom c \<noteq> cto c"
    and "distinct (selfconns net)"
  shows "(\<forall>c\<in>set (connections net'). cfrom c \<noteq> n \<and> cto c \<noteq> n) \<and> n \<notin> set (selfconns net')"
proof -
  from assms(2) have nn: "(n, n) \<notin> set (ends net)"
    by (auto simp: ends_def)
  from remove_result(3) [OF assms(1) nn] have "\<forall>p\<in>set (ends net'). fst p \<noteq> n \<and> snd p \<noteq> n"
    by blast
  then have "\<forall>c\<in>set (connections net'). cfrom c \<noteq> n \<and> cto c \<noteq> n"
    by (auto simp: ends_def)
  with remove_result(4) [OF assms(1) nn assms(3)] show ?thesis by simp
qed


lemma with_hidden_node_eval:
  "with_hidden_node =
     \<lparr> input_size = 1, output_size = 1, input = 1, output = 1,
       nodes = [new_Node 0 Input, new_Node 2 Hidden, new_Node 1 Output],
       connections = [\<lparr> cid = 1, cfrom = 0, cto = 2, weight = default_weight, gater = None \<rparr>,
                      \<lparr> cid = 2, cfrom = 2, cto = 1, weight = default_weight, gater = None \<rparr>],
       gates = [], selfconns = [], dropout = 0, score = None,
       next_node = 3, next_conn = 3 \<rparr>"
  by (simp add: with_hidden_node_def Network_Some fresh_eval mutate_eval example_methods_def
      initial_weight_def)

lemma self_connected_thrice_eval:
  "self_connected_thrice =
     \<lparr> input_size = 1, output_size = 1, input = 1, output = 1,
       nodes = [new_Node 0 Input, (new_Node 2 Hidden)\<lparr> self_weight := 1 \<rparr>, new_Node 1 Output],
       connections = [\<lparr> cid = 1, cfrom = 0, cto = 2, weight = default_weight, gater = None \<rparr>,
                      \<lparr> cid = 2, cfrom = 2, cto = 1, weight = default_weight, gater = None \<rparr>],
       gates = [], selfconns = [2, 2, 2], dropout = 0, score = None,
       next_node = 3, next_conn = 3 \<rparr>"
  by (simp add: self_connected_thrice_def with_hidden_node_eval connect_def update_node_def
      new_Node_def Let_def)


section \<open>Crossover of a network with itself\<close>

subsection \<open>Indices of nodes\<close>

lemma indexOf_int_bounds: "- 1 \<le> indexOf_int xs n \<and> indexOf_int xs n < int (length xs)"
  by (auto simp: indexOf_int_def split: option.splits dest: indexOf_Some)

lemma indexOf_int_nth:
  "distinct (map nid xs) \<Longrightarrow> k < length xs \<Longrightarrow> indexOf_int xs (nid (xs ! k)) = int k"
  by (simp add: indexOf_int_def indexOf_distinct)

lemma indexOf_int_mem:
  assumes "n \<in> nid ` set xs"
  shows "\<exists>k. k < length xs \<and> nid (xs ! k) = n \<and> indexOf_int xs n = int k"
proof -
  have "indexOf xs n \<noteq> None"
    using assms by (induction xs) auto
  then obtain k where "indexOf xs n = Some k" by auto
  with indexOf_Some [OF this] show ?thesis
    by (auto simp: indexOf_int_def)
qed

lemma indexOf_int_inj:
  assumes "a \<in> nid ` set xs" "b \<in> nid ` set xs" "indexOf_int xs a = indexOf_int xs b"
  shows "a = b"
  using indexOf_int_mem [OF assms(1)] indexOf_int_mem [OF assms(2)] assms(3) by auto

lemma get_node_nth:
  "distinct (map nid xs) \<Longrightarrow> k < length xs \<Longrightarrow> nodes net = xs \<Longrightarrow>
   get_node net (nid (xs ! k)) = Some (xs ! k)"
proof (induction xs arbitrary: k net)
  case Nil
  then show ?case by simp
next
  case (Cons x xs)
  show ?case
  proof (cases k)
    case 0
    with Cons.prems show ?thesis by (simp add: get_node_def)
  next
    case (Suc j)
    with Cons.prems have "nid (xs ! j) \<in> set (map nid xs)" by simp
    with Cons.prems have ne: "nid x \<noteq> nid (xs ! j)" by auto
    have "get_node (net\<lparr> nodes := xs \<rparr>) (nid (xs ! j)) = Some (xs ! j)"
      using Cons.prems Suc by (intro Cons.IH) auto
    with ne Cons.prems Suc show ?thesis by (simp add: get_node_def)
  qed
qed

subsection \<open>The genes of a well-formed network\<close>

lemma genes_in_range:
  assumes "well_formed N" "g \<in> set (genes_of N)"
  shows "0 \<le> g_from g \<and> g_from g < int (length (nodes N))
     \<and> 0 \<le> g_to g \<and> g_to g < int (length (nodes N))
     \<and> - 1 \<le> g_gater g \<and> g_gater g < int (length (nodes N))"
proof -
  have gb: "- 1 \<le> gater_index N x \<and> gater_index N x < int (length (nodes N))" for x
    using indexOf_int_bounds [of "nodes N"]
    by (cases x) (auto simp: gater_index_def intro: order_trans)
  from assms(2) consider c where "c \<in> set (connections N)" "g = conn_gene N c"
    | n where "n \<in> set (selfconns N)" "g = self_gene N n"
    by (auto simp: genes_of_def)
  then show ?thesis
  proof cases
    case 1
    then have "(cfrom c, cto c) \<in> set (ends N)" by (auto simp: ends_def)
    with assms(1) have "cfrom c \<in> nid ` set (nodes N)" "cto c \<in> nid ` set (nodes N)"
      by (auto simp: well_formed_def)
    from indexOf_int_mem [OF this(1)] indexOf_int_mem [OF this(2)] gb [of "gater c"] 1(2)
    show ?thesis by (auto simp: conn_gene_def)
  next
    case 2
    with assms(1) have "n \<in> nid ` set (nodes N)" by (auto simp: well_formed_def)
    from indexOf_int_mem [OF this] gb 2(2) show ?thesis by (auto simp: self_gene_def)
  qed
qed

lemma distinct_gene_pairs:
  assumes "well_formed N"
  shows "distinct (map g_pair (genes_of N))"
proof -
  let ?idx = "indexOf_int (nodes N)"
  let ?ids = "nid ` set (nodes N)"
  from assms have wf: "distinct (ends N)" "distinct (selfconns N)" "set (selfconns N) \<subseteq> ?ids"
    "\<forall>p\<in>set (ends N). fst p \<noteq> snd p \<and> fst p \<in> ?ids \<and> snd p \<in> ?ids"
    by (simp_all add: well_formed_def)
  have 1: "map g_pair (map (conn_gene N) (connections N)) = map (\<lambda>p. (?idx (fst p), ?idx (snd p))) (ends N)"
    by (simp add: g_pair_def conn_gene_def ends_def comp_def)
  have 2: "map g_pair (map (self_gene N) (selfconns N)) = map (\<lambda>n. (?idx n, ?idx n)) (selfconns N)"
    by (simp add: g_pair_def self_gene_def comp_def)
  have "inj_on (\<lambda>p. (?idx (fst p), ?idx (snd p))) (set (ends N))"
  proof (rule inj_onI)
    fix p q assume pq: "p \<in> set (ends N)" "q \<in> set (ends N)"
      "(?idx (fst p), ?idx (snd p)) = (?idx (fst q), ?idx (snd q))"
    with wf(4) have "fst p = fst q" "snd p = snd q"
      by (auto intro: indexOf_int_inj [of _ "nodes N"])
    then show "p = q" by (rule prod_eqI)
  qed
  then have d1: "distinct (map (\<lambda>p. (?idx (fst p), ?idx (snd p))) (ends N))"
    using wf(1) by (simp add: distinct_map)
  have "inj_on (\<lambda>n. (?idx n, ?idx n)) (set (selfconns N))"
    using wf(3) by (auto simp: inj_on_def intro: indexOf_int_inj [of _ "nodes N"])
  then have d2: "distinct (map (\<lambda>n. (?idx n, ?idx n)) (selfconns N))"
    using wf(2) by (simp add: distinct_map)
  have d3: "fst q \<noteq> snd q" if "q \<in> set (map (\<lambda>p. (?idx (fst p), ?idx (snd p))) (ends N))" for q
  proof -
    from that obtain p where p: "p \<in> set (ends N)" "q = (?idx (fst p), ?idx (snd p))"
      by auto
    with wf(4) have "fst p \<noteq> snd p" "fst p \<in> ?ids" "snd p \<in> ?ids" by auto
    with indexOf_int_inj [of "fst p" "nodes N" "snd p"] have "?idx (fst p) \<noteq> ?idx (snd p)"
      by blast
    with p(2) show ?thesis by simp
  qed
  have d4: "fst q = snd q" if "q \<in> set (map (\<lambda>n. (?idx n, ?idx n)) (selfconns N))" for q
    using that by auto
  have "set (map (\<lambda>p. (?idx (fst p), ?idx (snd p))) (ends N))
        \<inter> set (map (\<lambda>n. (?idx n, ?idx n)) (selfconns N)) = {}"
  proof (rule ccontr)
    assume "\<not> ?thesis"
    then obtain q where "q \<in> set (map (\<lambda>p. (?idx (fst p), ?idx (snd p))) (ends N))"
      "q \<in> set (map (\<lambda>n. (?idx n, ?idx n)) (selfconns N))"
      by blast
    with d3 [of q] d4 [of q] show False by blast
  qed
  with d1 d2 have "distinct (map (\<lambda>p. (?idx (fst p), ?idx (snd p))) (ends N)
      @ map (\<lambda>n. (?idx n, ?idx n)) (selfconns N))"
    by (simp only: distinct_append)
  then show ?thesis
    unfolding genes_of_def map_append 1 2 .
qed


subsection \<open>Objects as dictionaries\<close>

lemma map_of_map_replace:
  "map_of (map (\<lambda>p. if fst p = k then (k, v) else p) ob) k' =
     (if k' = k then (if k \<in> fst ` set ob then Some v else None) else map_of ob k')"
  by (induction ob) force+

lemma obj_get_obj_set: "obj_get (obj_set k v ob) k' = (if k' = k then Some v else obj_get ob k')"
proof (cases "k \<in> set (map fst ob)")
  case True
  then show ?thesis
    by (simp add: obj_get_def obj_set_def map_of_map_replace)
next
  case False
  then have "map_of ob k = None" by (simp add: map_of_eq_None_iff)
  with False show ?thesis
    by (auto simp: obj_get_def obj_set_def map_add_def split: option.splits)
qed

lemma keys_obj_set: "k \<in> set (map fst ob) \<Longrightarrow> map fst (obj_set k v ob) = map fst ob"
proof -
  have "map fst (map (\<lambda>p. if fst p = k then (k, v) else p) ob) = map fst ob"
    by (induction ob) auto
  then show "k \<in> set (map fst ob) \<Longrightarrow> map fst (obj_set k v ob) = map fst ob"
    by (simp add: obj_set_def)
qed

lemma fold_obj_set:
  assumes "distinct (map key gs)" "key ` set gs \<inter> set (map fst ob) = {}"
  shows "fold (\<lambda>g ob. obj_set (key g) (Some g) ob) gs ob = ob @ map (\<lambda>g. (key g, Some g)) gs"
  using assms
proof (induction gs arbitrary: ob)
  case Nil
  then show ?case by simp
next
  case (Cons g gs)
  from Cons.prems(2) have "key g \<notin> set (map fst ob)" by auto
  then have 1: "obj_set (key g) (Some g) ob = ob @ [(key g, Some g)]"
    by (simp add: obj_set_def)
  have "key ` set gs \<inter> set (map fst (ob @ [(key g, Some g)])) = {}"
    using Cons.prems by auto
  with Cons.IH [of "ob @ [(key g, Some g)]"] Cons.prems(1) 1 show ?case by simp
qed

lemma set_obj_keys: "set (obj_keys ob) = set (map fst ob)"
  by (auto simp: obj_keys_def)

lemma distinct_obj_keys: "distinct (map fst ob) \<Longrightarrow> distinct (obj_keys ob)"
  by (auto simp: obj_keys_def)

lemma obj_get_genes:
  assumes "distinct (map key gs)" "g \<in> set gs"
  shows "obj_get (map (\<lambda>g. (key g, Some g)) gs) (key g) = Some (Some g)"
proof -
  have "distinct (map fst (map (\<lambda>g. (key g, Some g)) gs))"
    using assms(1) by (simp add: comp_def)
  moreover have "(key g, Some g) \<in> set (map (\<lambda>g. (key g, Some g)) gs)"
    using assms(2) by auto
  ultimately show ?thesis
    unfolding obj_get_def by (rule map_of_is_SomeI)
qed

subsection \<open>The common genes\<close>

lemma common_step_common:
  assumes "obj_get O' k = Some (Some g)" "obj_get n2 k = Some (Some g)"
  shows "common_step O' b k (conns, n2, rnd) = (conns @ [g], obj_set k None n2, rtl rnd)"
  using assms by (simp add: common_step_def)

lemma fold_common_step:
  assumes "distinct ks"
    and "\<forall>k\<in>set ks. k \<in> set (map fst n2)
           \<and> (\<exists>g. obj_get O' k = Some (Some g) \<and> obj_get n2 k = Some (Some g))"
  shows "\<exists>n2'. fold (common_step O' b) ks (conns, n2, rnd)
           = (conns @ map (\<lambda>k. the (the (obj_get O' k))) ks, n2', (\<lambda>n. rnd (n + length ks)))
         \<and> map fst n2' = map fst n2
         \<and> (\<forall>k. obj_get n2' k = (if k \<in> set ks then Some None else obj_get n2 k))"
  using assms
proof (induction ks arbitrary: conns n2 rnd)
  case Nil
  then show ?case by simp
next
  case (Cons k ks)
  from Cons.prems(2) obtain g where
    g: "obj_get O' k = Some (Some g)" "obj_get n2 k = Some (Some g)" "k \<in> set (map fst n2)"
    by auto
  let ?n2 = "obj_set k None n2"
  have keys: "map fst ?n2 = map fst n2" using g(3) by (rule keys_obj_set)
  have "\<forall>k'\<in>set ks. k' \<in> set (map fst ?n2)
           \<and> (\<exists>g. obj_get O' k' = Some (Some g) \<and> obj_get ?n2 k' = Some (Some g))"
    using Cons.prems unfolding keys by (auto simp: obj_get_obj_set)
  with Cons.IH [of ?n2 "conns @ [g]" "rtl rnd"] Cons.prems(1) obtain n2' where
    ih: "fold (common_step O' b) ks (conns @ [g], ?n2, rtl rnd)
           = ((conns @ [g]) @ map (\<lambda>k. the (the (obj_get O' k))) ks, n2',
              (\<lambda>n. rtl rnd (n + length ks)))"
      "map fst n2' = map fst ?n2"
      "\<forall>k'. obj_get n2' k' = (if k' \<in> set ks then Some None else obj_get ?n2 k')"
    by auto
  show ?case
    apply (rule exI [of _ n2'])
    using ih g keys Cons.prems(1)
    by (simp add: common_step_common [OF g(1,2)] obj_get_obj_set rtl_def)
qed

lemma excess_genes_none:
  "\<forall>k\<in>set ks. obj_get n2 k = Some None \<Longrightarrow> excess_genes n2 ks = []"
  by (induction ks) (simp_all add: excess_genes_def)


subsection \<open>The nodes of the offspring\<close>

lemma offspring_node_self:
  assumes "i < length (nodes N)"
  shows "offspring_node N N (int (length (nodes N))) out i (ns, next, rnd) =
     Inr (ns @ [(new_Node next (ntype (nodes N ! i)))
                  \<lparr> bias := bias (nodes N ! i), squash := squash (nodes N ! i) \<rparr>],
          Suc next, rtl rnd)"
  using assms by (simp add: offspring_node_def nth_opt_def Let_def)

lemma foldE_offspring_node:
  assumes "i \<le> length (nodes N)"
  shows "\<exists>ns'. foldE (offspring_node N N (int (length (nodes N))) out) [i ..< length (nodes N)]
                 (ns, next, rnd)
           = Inr (ns @ ns', next + (length (nodes N) - i),
                  (\<lambda>n. rnd (n + (length (nodes N) - i))))
         \<and> map nid ns' = [next ..< next + (length (nodes N) - i)]"
  using assms
proof (induction "length (nodes N) - i" arbitrary: i ns "next" rnd)
  case 0
  then show ?case by simp
next
  case (Suc d)
  then have i: "i < length (nodes N)" and d: "d = length (nodes N) - Suc i" by simp_all
  let ?x = "(new_Node next (ntype (nodes N ! i)))
              \<lparr> bias := bias (nodes N ! i), squash := squash (nodes N ! i) \<rparr>"
  from i have "Suc i \<le> length (nodes N)" by simp
  from Suc.hyps(1) [OF d this, of "ns @ [?x]" "Suc next" "rtl rnd"] obtain ns' where
    ih: "foldE (offspring_node N N (int (length (nodes N))) out) [Suc i ..< length (nodes N)]
           (ns @ [?x], Suc next, rtl rnd)
         = Inr ((ns @ [?x]) @ ns', Suc next + (length (nodes N) - Suc i),
                (\<lambda>n. rtl rnd (n + (length (nodes N) - Suc i))))"
      "map nid ns' = [Suc next ..< Suc next + (length (nodes N) - Suc i)]"
    by blast
  have l: "[i ..< length (nodes N)] = i # [Suc i ..< length (nodes N)]"
    using i by (rule upt_conv_Cons)
  have e: "Suc next + (length (nodes N) - Suc i) = next + (length (nodes N) - i)"
    using i by simp
  have u: "[next ..< next + (length (nodes N) - i)]
           = next # [Suc next ..< next + (length (nodes N) - i)]"
    using i by (intro upt_conv_Cons) simp
  have r: "(\<lambda>n. rtl rnd (n + (length (nodes N) - Suc i))) = (\<lambda>n. rnd (n + (length (nodes N) - i)))"
    using i by (simp add: rtl_def Suc_diff_Suc)
  show ?case
    apply (rule exI [of _ "?x # ns'"])
    unfolding l foldE.simps offspring_node_self [OF i] sum.case ih(1) r e u
    using ih(2) [unfolded e] by (simp add: new_Node_def del: upt_Suc)
qed

lemma floor_draw:
  "0 \<le> r \<Longrightarrow> r < 1 \<Longrightarrow>
   \<lfloor>r * real_of_int (max l l - min l l + 1) + real_of_int (min l l)\<rfloor> = l"
  by (simp add: floor_eq_iff)

subsection \<open>Adding a gene to the offspring\<close>

lemma indexOf_mem: "n \<in> nid ` set xs \<Longrightarrow> indexOf xs n \<noteq> None"
  by (induction xs) auto

lemma map_if_cid_fresh:
  "\<forall>c\<in>set cs. cid c < k \<Longrightarrow> map (\<lambda>x. if cid x = k then f x else x) cs = cs"
  by (induction cs) auto

lemma find_update:
  assumes "\<And>x. nid (f x) = nid x"
  shows "find (\<lambda>x. nid x = n) (map (\<lambda>x. if nid x = m then f x else x) xs)
         = map_option (\<lambda>x. if nid x = m then f x else x) (find (\<lambda>x. nid x = n) xs)"
  using assms by (induction xs) auto

lemma get_node_update_node:
  assumes "\<And>x. nid (f x) = nid x"
  shows "get_node (update_node m f net) n
         = map_option (\<lambda>x. if nid x = m then f x else x) (get_node net n)"
  using find_update [of f n m "nodes net", OF assms]
  by (simp add: get_node_def update_node_def)

lemma selfs_update_node_keep:
  assumes "\<And>x. nid (f x) = nid x \<and> self_weight (f x) = self_weight x"
  shows "selfs (update_node m f net) = selfs net"
proof -
  have "(case get_node (update_node m f net) n of None \<Rightarrow> 0 | Some x \<Rightarrow> self_weight x)
        = (case get_node net n of None \<Rightarrow> 0 | Some x \<Rightarrow> self_weight x)" for n
    using assms by (simp add: get_node_update_node split: option.splits)
  moreover have "selfconns (update_node m f net) = selfconns net"
    by (simp add: update_node_def)
  ultimately show ?thesis by (simp add: selfs_def)
qed

lemma selfs_update_node_other:
  assumes "\<And>x. nid (f x) = nid x" "m \<notin> set (selfconns net)"
  shows "selfs (update_node m f net) = selfs net"
proof -
  have "(case get_node (update_node m f net) n of None \<Rightarrow> 0 | Some x \<Rightarrow> self_weight x)
        = (case get_node net n of None \<Rightarrow> 0 | Some x \<Rightarrow> self_weight x)"
    if "n \<in> set (selfconns net)" for n
  proof (cases "get_node net n")
    case None
    then show ?thesis using assms(1) by (simp add: get_node_update_node)
  next
    case (Some x)
    from that assms(2) have "n \<noteq> m" by auto
    moreover from Some have "nid x = n"
      by (auto simp: get_node_def dest: find_Some_iff [THEN iffD1])
    ultimately show ?thesis using Some assms(1) by (simp add: get_node_update_node)
  qed
  moreover have "selfconns (update_node m f net) = selfconns net"
    by (simp add: update_node_def)
  ultimately show ?thesis by (simp add: selfs_def)
qed

lemma gate_keeps:
  assumes "gate net n r = Inr net'"
  shows "triples net' = triples net" "selfs net' = selfs net"
    "map cid (connections net') = map cid (connections net)" "next_conn net' = next_conn net"
    "map nid (nodes net') = map nid (nodes net)"
proof -
  from assms have d: "net' = net \<or> net' = (set_ref_gater r (Some n) net)\<lparr> gates := gates net @ [r] \<rparr>"
    by (auto simp: gate_def split: if_splits)
  have t: "triples (set_ref_gater r (Some n) net) = triples net"
    by (cases r) (simp_all add: set_ref_gater_def triples_def update_conn_def update_node_def
        comp_def if_distrib [of cfrom] if_distrib [of cto] if_distrib [of weight])
  have s: "selfs (set_ref_gater r (Some n) net) = selfs net"
  proof (cases r)
    case (CRef c)
    then show ?thesis
      by (simp add: set_ref_gater_def selfs_def update_conn_def get_node_def)
  next
    case (SRef m)
    then show ?thesis
      by (simp add: set_ref_gater_def selfs_update_node_keep)
  qed
  have c: "map cid (connections (set_ref_gater r (Some n) net)) = map cid (connections net)"
    "next_conn (set_ref_gater r (Some n) net) = next_conn net"
    "map nid (nodes (set_ref_gater r (Some n) net)) = map nid (nodes net)"
    by (cases r; simp add: set_ref_gater_def update_conn_def update_node_def comp_def
        if_distrib [of cid] if_distrib [of nid])+
  have g: "triples (x\<lparr> gates := gs \<rparr>) = triples x" "selfs (x\<lparr> gates := gs \<rparr>) = selfs x" for x gs
    by (simp_all add: triples_def selfs_def get_node_def)
  from d t s c g show "triples net' = triples net" "selfs net' = selfs net"
    "map cid (connections net') = map cid (connections net)" "next_conn net' = next_conn net"
    "map nid (nodes net') = map nid (nodes net)"
    by auto
qed

lemma gate_after:
  assumes "map nid (nodes net2) = IDS" "gg < int (length IDS)" "- 1 \<le> gg"
  shows "\<exists>net3. (if gg \<noteq> - 1 \<and> gg < int (length IDS)
                  then (case nth_opt (nodes net2) gg of
                          None \<Rightarrow> Inl NotPartOfNetwork
                        | Some x \<Rightarrow> gate net2 (nid x) r)
                  else Inr net2) = Inr net3
          \<and> triples net3 = triples net2 \<and> selfs net3 = selfs net2
          \<and> map cid (connections net3) = map cid (connections net2)
          \<and> next_conn net3 = next_conn net2 \<and> map nid (nodes net3) = IDS"
proof (cases "gg = - 1")
  case True
  with assms(1) show ?thesis by simp
next
  case False
  from assms(1) have len: "length (nodes net2) = length IDS" by (metis length_map)
  from False assms(3) have "0 \<le> gg" by simp
  with assms(2) len have n: "nth_opt (nodes net2) gg = Some (nodes net2 ! nat gg)"
    "nodes net2 ! nat gg \<in> set (nodes net2)"
    by (simp_all add: nth_opt_def)
  then have "indexOf (nodes net2) (nid (nodes net2 ! nat gg)) \<noteq> None"
    by (intro indexOf_mem) simp
  then have "\<exists>net3. gate net2 (nid (nodes net2 ! nat gg)) r = Inr net3"
    by (simp add: gate_def)
  then obtain net3 where g: "gate net2 (nid (nodes net2 ! nat gg)) r = Inr net3" ..
  from gate_keeps [OF g] assms(1) g False assms(2) n(1) show ?thesis by simp
qed

lemma add_gene_step:
  assumes ids: "map nid (nodes net) = IDS" "distinct IDS"
    and g: "0 \<le> g_from g" "g_from g < int (length IDS)" "0 \<le> g_to g"
      "g_to g < int (length IDS)" "g_gater g < int (length IDS)" "- 1 \<le> g_gater g"
    and cids: "\<forall>c\<in>set (connections net). cid c < next_conn net"
    and fresh: "g_from g \<noteq> g_to g \<Longrightarrow> (IDS ! nat (g_from g), IDS ! nat (g_to g)) \<notin> set (ends net)"
      "g_from g = g_to g \<Longrightarrow> IDS ! nat (g_from g) \<notin> set (selfconns net)"
  shows "\<exists>net'. add_gene (int (length IDS)) g net = Inr net'
      \<and> map nid (nodes net') = IDS
      \<and> (\<forall>c\<in>set (connections net'). cid c < next_conn net')
      \<and> triples net' = triples net @
          (if g_from g \<noteq> g_to g
           then [(IDS ! nat (g_from g), IDS ! nat (g_to g), g_weight g)] else [])
      \<and> selfs net' = selfs net @
          (if g_from g = g_to g then [(IDS ! nat (g_from g), g_weight g)] else [])"
proof -
  define f t where "f = nat (g_from g)" and "t = nat (g_to g)"
  define F T where "F = IDS ! f" and "T = IDS ! t"
  define w where "w = g_weight g"
  from ids(1) have len: "length (nodes net) = length IDS" by (metis length_map)
  have ft: "f < length IDS" "t < length IDS" "g_from g = int f" "g_to g = int t"
    using g by (simp_all add: f_def t_def)
  have nth: "nth_opt (nodes net) (g_from g) = Some (nodes net ! f)"
    "nth_opt (nodes net) (g_to g) = Some (nodes net ! t)"
    using ft len by (simp_all add: nth_opt_def)
  have nid: "nid (nodes net ! f) = F" "nid (nodes net ! t) = T"
    using ft len ids(1) unfolding F_def T_def by (metis nth_map)+
  have FT: "F = T \<longleftrightarrow> g_from g = g_to g"
    using ft ids(2) by (simp add: F_def T_def nth_eq_iff_index_eq)
  have "\<exists>net2 r. connect net F T None = Inr (net2, r)
      \<and> map nid (nodes (set_ref_weight r w net2)) = IDS
      \<and> (\<forall>c\<in>set (connections (set_ref_weight r w net2)).
            cid c < next_conn (set_ref_weight r w net2))
      \<and> triples (set_ref_weight r w net2) = triples net @ (if F \<noteq> T then [(F, T, w)] else [])
      \<and> selfs (set_ref_weight r w net2) = selfs net @ (if F = T then [(F, w)] else [])"
  proof (cases "F = T")
    case False
    with FT fresh(1) have "(F, T) \<notin> set (ends net)" by (simp add: F_def T_def f_def t_def)
    then have np: "\<not> list_ex (\<lambda>c. cfrom c = F \<and> cto c = T) (connections net)"
      by (auto simp: list_ex_iff ends_def)
    let ?c = "\<lparr> cid = next_conn net, cfrom = F, cto = T, weight = default_weight, gater = None \<rparr>"
    let ?net2 = "net\<lparr> connections := connections net @ [?c], next_conn := Suc (next_conn net) \<rparr>"
    have c: "connect net F T None = Inr (?net2, CRef (next_conn net))"
      using connect_fresh [OF False np, of None] by simp
    have s: "set_ref_weight (CRef (next_conn net)) w ?net2
             = ?net2\<lparr> connections := connections net @ [?c\<lparr> weight := w \<rparr>] \<rparr>"
      using map_if_cid_fresh [OF cids]
      by (simp add: set_ref_weight_def update_conn_def)
    show ?thesis
      apply (rule exI [of _ ?net2], rule exI [of _ "CRef (next_conn net)"])
      unfolding s using c False ids(1) cids
      by (auto simp: triples_def selfs_def get_node_def less_Suc_eq)
  next
    case True
    with FT fresh(2) have nF: "F \<notin> set (selfconns net)" by (simp add: F_def f_def)
    let ?h = "\<lambda>x. if self_weight x \<noteq> 0 then x else x\<lparr> self_weight := 1 \<rparr>"
    let ?net2 = "(update_node F ?h net)\<lparr> selfconns := selfconns net @ [F] \<rparr>"
    have c: "connect net F T None = Inr (?net2, SRef F)"
      using True by (simp add: connect_def Let_def update_node_def)
    let ?k = "\<lambda>x. (?h x)\<lparr> self_weight := w \<rparr>"
    have s: "set_ref_weight (SRef F) w ?net2
             = (update_node F ?k net)\<lparr> selfconns := selfconns net @ [F] \<rparr>"
      by (simp add: set_ref_weight_def update_node_def comp_def cong: if_cong)
    have k: "nid (?k x) = nid x" for x by simp
    have gn: "get_node net F = Some (nodes net ! f)"
      using get_node_nth [of "nodes net" f net] ids ft(1) len nid(1) by simp
    have sF: "(case get_node (update_node F ?k net) F of None \<Rightarrow> 0 | Some x \<Rightarrow> self_weight x) = w"
      using nid(1) by (simp add: get_node_update_node [of ?k, OF k] gn)
    have so: "selfs (update_node F ?k net) = selfs net"
      using selfs_update_node_other [of ?k F net, OF k nF] .
    have sel: "selfs ((update_node F ?k net)\<lparr> selfconns := selfconns net @ [F] \<rparr>)
               = selfs net @ [(F, w)]"
      using so sF by (simp add: selfs_def get_node_def update_node_def)
    have tr: "triples ((update_node F ?k net)\<lparr> selfconns := selfconns net @ [F] \<rparr>) = triples net"
      by (simp add: triples_def update_node_def)
    have "same_nodes net (update_node F ?k net)"
      by (rule same_nodes_update_node) simp
    then have idk: "map nid (nodes (update_node F ?k net)) = IDS"
      using ids(1) by (simp add: same_nodes_def)
    show ?thesis
      apply (rule exI [of _ ?net2], rule exI [of _ "SRef F"])
      unfolding s using c True sel tr idk cids
      by (simp add: update_node_def)
  qed
  then obtain net2 r where c: "connect net F T None = Inr (net2, r)"
    and p: "map nid (nodes (set_ref_weight r w net2)) = IDS"
      "\<forall>c\<in>set (connections (set_ref_weight r w net2)).
            cid c < next_conn (set_ref_weight r w net2)"
      "triples (set_ref_weight r w net2) = triples net @ (if F \<noteq> T then [(F, T, w)] else [])"
      "selfs (set_ref_weight r w net2) = selfs net @ (if F = T then [(F, w)] else [])"
    by blast
  from gate_after [OF p(1) g(5,6), of r] obtain net3 where
    g3: "(if g_gater g \<noteq> - 1 \<and> g_gater g < int (length IDS)
          then (case nth_opt (nodes (set_ref_weight r w net2)) (g_gater g) of
                  None \<Rightarrow> Inl NotPartOfNetwork
                | Some x \<Rightarrow> gate (set_ref_weight r w net2) (nid x) r)
          else Inr (set_ref_weight r w net2)) = Inr net3"
    and q: "triples net3 = triples (set_ref_weight r w net2)"
      "selfs net3 = selfs (set_ref_weight r w net2)"
      "map cid (connections net3) = map cid (connections (set_ref_weight r w net2))"
      "next_conn net3 = next_conn (set_ref_weight r w net2)" "map nid (nodes net3) = IDS"
    by blast
  have a: "add_gene (int (length IDS)) g net = Inr net3"
    using g(2,4) g3 by (simp add: add_gene_def nth nid c Let_def w_def [symmetric])
  have b: "\<forall>c\<in>set (connections net3). cid c < next_conn net3"
  proof
    fix c assume "c \<in> set (connections net3)"
    then have "cid c \<in> set (map cid (connections net3))" by simp
    then have "cid c \<in> set (map cid (connections (set_ref_weight r w net2)))"
      unfolding q(3) .
    with p(2) show "cid c < next_conn net3" unfolding q(4) by auto
  qed
  show ?thesis
    apply (rule exI [of _ net3])
    using a b q(1,2,5) p(3,4) FT
    by (simp add: F_def T_def f_def t_def w_def)
qed


lemma ends_triples: "ends net = map (\<lambda>p. (fst p, fst (snd p))) (triples net)"
  by (simp add: ends_def triples_def comp_def)

lemma selfconns_selfs: "selfconns net = map fst (selfs net)"
  by (simp add: selfs_def comp_def)

lemma nth_nat_inj:
  assumes "distinct IDS" "0 \<le> a" "a < int (length IDS)" "0 \<le> b" "b < int (length IDS)"
  shows "IDS ! nat a = IDS ! nat b \<longleftrightarrow> a = b"
proof -
  have "IDS ! nat a = IDS ! nat b \<longleftrightarrow> nat a = nat b"
    using assms by (intro nth_eq_iff_index_eq) simp_all
  with assms(2,4) show ?thesis by (simp add: nat_eq_iff)
qed

lemma foldE_add_gene:
  assumes "distinct (map g_pair gs)"
    and "\<forall>g\<in>set gs. 0 \<le> g_from g \<and> g_from g < int (length IDS) \<and> 0 \<le> g_to g
           \<and> g_to g < int (length IDS) \<and> - 1 \<le> g_gater g \<and> g_gater g < int (length IDS)"
    and "map nid (nodes net) = IDS" "distinct IDS"
    and "\<forall>c\<in>set (connections net). cid c < next_conn net"
    and "\<forall>g\<in>set gs. g_from g \<noteq> g_to g
           \<longrightarrow> (IDS ! nat (g_from g), IDS ! nat (g_to g)) \<notin> set (ends net)"
    and "\<forall>g\<in>set gs. g_from g = g_to g \<longrightarrow> IDS ! nat (g_from g) \<notin> set (selfconns net)"
  shows "\<exists>net'. foldE (add_gene (int (length IDS))) gs net = Inr net'
      \<and> map nid (nodes net') = IDS
      \<and> triples net' = triples net @
          map (\<lambda>g. (IDS ! nat (g_from g), IDS ! nat (g_to g), g_weight g))
            (filter (\<lambda>g. g_from g \<noteq> g_to g) gs)
      \<and> selfs net' = selfs net @
          map (\<lambda>g. (IDS ! nat (g_from g), g_weight g)) (filter (\<lambda>g. g_from g = g_to g) gs)"
  using assms
proof (induction gs arbitrary: net)
  case Nil
  then show ?case by simp
next
  case (Cons g gs)
  from Cons.prems(2) have r: "0 \<le> g_from g" "g_from g < int (length IDS)" "0 \<le> g_to g"
    "g_to g < int (length IDS)" "g_gater g < int (length IDS)" "- 1 \<le> g_gater g"
    by simp_all
  from Cons.prems(6,7) have f: "g_from g \<noteq> g_to g \<Longrightarrow>
      (IDS ! nat (g_from g), IDS ! nat (g_to g)) \<notin> set (ends net)"
    "g_from g = g_to g \<Longrightarrow> IDS ! nat (g_from g) \<notin> set (selfconns net)"
    by simp_all
  from add_gene_step [OF Cons.prems(3,4) r Cons.prems(5) f] obtain net1 where
    s: "add_gene (int (length IDS)) g net = Inr net1" "map nid (nodes net1) = IDS"
      "\<forall>c\<in>set (connections net1). cid c < next_conn net1"
      "triples net1 = triples net @
          (if g_from g \<noteq> g_to g
           then [(IDS ! nat (g_from g), IDS ! nat (g_to g), g_weight g)] else [])"
      "selfs net1 = selfs net @
          (if g_from g = g_to g then [(IDS ! nat (g_from g), g_weight g)] else [])"
    by blast
  have ne: "g_pair g' \<noteq> g_pair g" if "g' \<in> set gs" for g'
    using Cons.prems(1) that by (metis distinct.simps(2) image_eqI list.simps(9) set_map)
  have e1: "(IDS ! nat (g_from g'), IDS ! nat (g_to g')) \<notin> set (ends net1)"
    if "g' \<in> set gs" "g_from g' \<noteq> g_to g'" for g'
  proof -
    from that Cons.prems(2) have r': "0 \<le> g_from g'" "g_from g' < int (length IDS)"
      "0 \<le> g_to g'" "g_to g' < int (length IDS)"
      by simp_all
    from that Cons.prems(6) have
      o: "(IDS ! nat (g_from g'), IDS ! nat (g_to g')) \<notin> set (ends net)"
      by simp
    have "(IDS ! nat (g_from g'), IDS ! nat (g_to g')) \<noteq> (IDS ! nat (g_from g), IDS ! nat (g_to g))"
      using ne [OF that(1)] nth_nat_inj [OF Cons.prems(4) r'(1,2) r(1,2)]
        nth_nat_inj [OF Cons.prems(4) r'(3,4) r(3,4)]
      by (auto simp: g_pair_def)
    with o show ?thesis unfolding ends_triples s(4) by (auto simp: ends_triples)
  qed
  have e2: "IDS ! nat (g_from g') \<notin> set (selfconns net1)"
    if "g' \<in> set gs" "g_from g' = g_to g'" for g'
  proof -
    from that Cons.prems(2) have r': "0 \<le> g_from g'" "g_from g' < int (length IDS)"
      by simp_all
    from that Cons.prems(7) have o: "IDS ! nat (g_from g') \<notin> set (selfconns net)"
      by simp
    have "g_from g = g_to g \<Longrightarrow> IDS ! nat (g_from g') \<noteq> IDS ! nat (g_from g)"
      using ne [OF that(1)] that(2) nth_nat_inj [OF Cons.prems(4) r'(1,2) r(1,2)]
      by (auto simp: g_pair_def)
    with o show ?thesis unfolding selfconns_selfs s(5) by (auto simp: selfconns_selfs)
  qed
  have "\<exists>net'. foldE (add_gene (int (length IDS))) gs net1 = Inr net'
      \<and> map nid (nodes net') = IDS
      \<and> triples net' = triples net1 @
          map (\<lambda>g. (IDS ! nat (g_from g), IDS ! nat (g_to g), g_weight g))
            (filter (\<lambda>g. g_from g \<noteq> g_to g) gs)
      \<and> selfs net' = selfs net1 @
          map (\<lambda>g. (IDS ! nat (g_from g), g_weight g)) (filter (\<lambda>g. g_from g = g_to g) gs)"
    using Cons.prems(1,2) s(2,3) Cons.prems(4) e1 e2
    by (intro Cons.IH) simp_all
  then obtain net' where
    ih: "foldE (add_gene (int (length IDS))) gs net1 = Inr net'" "map nid (nodes net') = IDS"
      "triples net' = triples net1 @
          map (\<lambda>g. (IDS ! nat (g_from g), IDS ! nat (g_to g), g_weight g))
            (filter (\<lambda>g. g_from g \<noteq> g_to g) gs)"
      "selfs net' = selfs net1 @
          map (\<lambda>g. (IDS ! nat (g_from g), g_weight g)) (filter (\<lambda>g. g_from g = g_to g) gs)"
    by blast
  show ?case
    apply (rule exI [of _ net'])
    using s(1) ih by (simp add: s(4,5))
qed

lemma conn_set_triples:
  "conn_set net =
     (\<lambda>p. (indexOf_int (nodes net) (fst p), indexOf_int (nodes net) (fst (snd p)), snd (snd p)))
       ` set (triples net)
     \<union> (\<lambda>p. (indexOf_int (nodes net) (fst p), indexOf_int (nodes net) (fst p), snd p))
       ` set (selfs net)"
  by (simp add: conn_set_def genes_of_def triples_def selfs_def conn_gene_def self_gene_def
      image_Un image_image)

lemma conn_set_offspring:
  assumes "map nid (nodes off) = IDS" "distinct IDS"
    and "triples off = map (\<lambda>g. (IDS ! nat (g_from g), IDS ! nat (g_to g), g_weight g))
            (filter (\<lambda>g. g_from g \<noteq> g_to g) gs)"
    and "selfs off = map (\<lambda>g. (IDS ! nat (g_from g), g_weight g))
            (filter (\<lambda>g. g_from g = g_to g) gs)"
    and "\<forall>g\<in>set gs. 0 \<le> g_from g \<and> g_from g < int (length IDS) \<and> 0 \<le> g_to g
           \<and> g_to g < int (length IDS)"
  shows "conn_set off = (\<lambda>g. (g_from g, g_to g, g_weight g)) ` set gs"
proof -
  from assms(1) have len: "length (nodes off) = length IDS" by (metis length_map)
  have idx: "indexOf_int (nodes off) (IDS ! nat a) = a" if "0 \<le> a" "a < int (length IDS)" for a
  proof -
    from that have k: "nat a < length (nodes off)" by (simp add: len)
    have "IDS ! nat a = nid (nodes off ! nat a)"
      using k assms(1) by (metis nth_map)
    with indexOf_int_nth [of "nodes off" "nat a"] assms(1,2) k that(1) show ?thesis by simp
  qed
  have 1: "(\<lambda>p. (indexOf_int (nodes off) (fst p), indexOf_int (nodes off) (fst (snd p)), snd (snd p)))
       ` set (triples off)
       = (\<lambda>g. (g_from g, g_to g, g_weight g)) ` {g \<in> set gs. g_from g \<noteq> g_to g}"
    unfolding assms(3) using assms(5) by (auto simp: idx image_iff)
  have 2: "(\<lambda>p. (indexOf_int (nodes off) (fst p), indexOf_int (nodes off) (fst p), snd p))
       ` set (selfs off)
       = (\<lambda>g. (g_from g, g_to g, g_weight g)) ` {g \<in> set gs. g_from g = g_to g}"
    unfolding assms(4) using assms(5) by (auto simp: idx image_iff)
  have 3: "{g \<in> set gs. g_from g \<noteq> g_to g} \<union> {g \<in> set gs. g_from g = g_to g} = set gs"
    by auto
  show ?thesis unfolding conn_set_triples 1 2 image_Un [symmetric] 3 ..
qed


subsection \<open>The offspring of a network and itself\<close>

text \<open>
  When the size drawn is the number of nodes of \<open>N\<close>, the offspring of \<open>N\<close> and \<open>N\<close>
  has as many nodes as \<open>N\<close> and the connection set of \<open>N\<close>, for every network
  whose connections join nodes of the network, with no two ordinary connections on the
  same ordered pair and no node twice in \<open>selfconns\<close>, and every function
  \<^verbatim>\<open>innovationID\<close> that tells the pairs of indices of \<open>N\<close> apart.
\<close>

lemma cross_over_self:
  assumes wf: "well_formed N"
    and inj: "inj_on (\<lambda>p. iid (fst p) (snd p)) (g_pair ` set (genes_of N))"
    and sz: "drawn_size (int (length (nodes N))) (int (length (nodes N)))
               (rnd (length (initial_pairs (input N) (output N)))) = int (length (nodes N))"
  shows "\<exists>off rnd'. cross_over iid N N True rnd = Inr (off, rnd')
     \<and> length (nodes off) = length (nodes N) \<and> conn_set off = conn_set N"
proof -
  define len where "len = length (nodes N)"
  define fresh where "fresh = fresh_network (input N) (output N) rnd"
  define rnd0 where "rnd0 = (\<lambda>n. rnd (n + length (initial_pairs (input N) (output N))))"
  have N0: "Network (Some (input N)) (Some (output N)) rnd = Inr (fresh, rnd0)"
    by (simp add: Network_Some fresh_def rnd0_def)
  have sz0: "drawn_size (int (length (nodes N))) (int (length (nodes N))) (rhd rnd0)
             = int (length (nodes N))"
    using sz by (simp add: rhd_def rnd0_def)
  define key where "key = (\<lambda>g::gene. iid (g_from g) (g_to g))"
  define ob where "ob = map (\<lambda>g. (key g, Some g)) (genes_of N)"
  have key: "map key gs = map (\<lambda>p. iid (fst p) (snd p)) (map g_pair gs)" for gs
    by (simp add: key_def g_pair_def comp_def)
  have dk: "distinct (map key (genes_of N))"
    unfolding key using distinct_gene_pairs [OF wf] inj by (simp add: distinct_map comp_inj_on)
  have ob: "conns_object iid N = ob"
    using fold_obj_set [of key "genes_of N" "[]"] dk
    by (simp add: conns_object_def key_def ob_def)
  have fst_ob: "map fst ob = map key (genes_of N)"
    by (simp add: ob_def comp_def)
  define ks where "ks = rev (obj_keys ob)"
  have ks: "distinct ks" "set ks = key ` set (genes_of N)"
    using distinct_obj_keys [of ob] dk set_obj_keys [of ob]
    by (simp_all add: ks_def fst_ob)
  have look: "obj_get ob (key g) = Some (Some g)" if "g \<in> set (genes_of N)" for g
    unfolding ob_def using dk that by (rule obj_get_genes)
  have "\<forall>k\<in>set ks. k \<in> set (map fst ob)
           \<and> (\<exists>g. obj_get ob k = Some (Some g) \<and> obj_get ob k = Some (Some g))"
    using look by (auto simp: ks(2) fst_ob)
  then have common: "\<forall>k\<in>set ks. k \<in> set (map fst ob)
           \<and> (\<exists>g. obj_get ob k = Some (Some g) \<and> obj_get ob k = Some (Some g))" .
  define GL where "GL = map (\<lambda>k. the (the (obj_get ob k))) ks"
  have GLk: "map key GL = ks"
  proof -
    have "key (the (the (obj_get ob k))) = k" if "k \<in> set ks" for k
      using that look by (auto simp: ks(2))
    then show ?thesis by (simp add: GL_def comp_def map_idI)
  qed
  have GLset: "set GL = set (genes_of N)"
  proof -
    have "(\<lambda>k. the (the (obj_get ob k))) ` key ` set (genes_of N) = set (genes_of N)"
      using look by (force simp: image_iff)
    then show ?thesis by (simp add: GL_def ks(2))
  qed
  have GLd: "distinct (map g_pair GL)"
    using ks(1) unfolding GLk [symmetric] key
    by (rule distinct_map [THEN iffD1, THEN conjunct1])
  from foldE_offspring_node [of 0 N "output N" "[]" "next_node fresh" "rtl rnd0"] obtain ns where
    ns: "foldE (offspring_node N N (int (length (nodes N))) (output N)) [0 ..< length (nodes N)]
           ([], next_node fresh, rtl rnd0)
         = Inr (ns, next_node fresh + length (nodes N),
                (\<lambda>n. rtl rnd0 (n + length (nodes N))))"
      "map nid ns = [next_node fresh ..< next_node fresh + length (nodes N)]"
    by auto
  define rnd2 where "rnd2 = (\<lambda>n. rtl rnd0 (n + length (nodes N)))"
  define IDS where "IDS = map nid ns"
  have IDS: "distinct IDS" "length IDS = length (nodes N)"
    by (simp_all add: IDS_def ns(2))
  define off0 where
    "off0 = fresh\<lparr> connections := [], nodes := ns, next_node := next_node fresh + length (nodes N) \<rparr>"
  have range: "\<forall>g\<in>set GL. 0 \<le> g_from g \<and> g_from g < int (length IDS) \<and> 0 \<le> g_to g
           \<and> g_to g < int (length IDS) \<and> - 1 \<le> g_gater g \<and> g_gater g < int (length IDS)"
    using genes_in_range [OF wf] by (simp add: GLset IDS(2))
  have o0: "map nid (nodes off0) = IDS" "connections off0 = []" "ends off0 = []"
    "selfconns off0 = []" "triples off0 = []" "selfs off0 = []"
    by (simp_all add: off0_def IDS_def fresh_def fresh_network_def ends_def triples_def selfs_def)
  from foldE_add_gene [OF GLd range o0(1) IDS(1)] o0 obtain off where
    off: "foldE (add_gene (int (length IDS))) GL off0 = Inr off" "map nid (nodes off) = IDS"
      "triples off = map (\<lambda>g. (IDS ! nat (g_from g), IDS ! nat (g_to g), g_weight g))
            (filter (\<lambda>g. g_from g \<noteq> g_to g) GL)"
      "selfs off = map (\<lambda>g. (IDS ! nat (g_from g), g_weight g))
            (filter (\<lambda>g. g_from g = g_to g) GL)"
    by auto
  have cs: "conn_set off = conn_set N"
    using conn_set_offspring [OF off(2) IDS(1) off(3,4)] range by (simp add: conn_set_def GLset)
  have ln: "length (nodes off) = length (nodes N)"
    using off(2) IDS(2) by (metis length_map)
  from fold_common_step [OF ks(1) common, of True "[]" rnd2] obtain n2' where
    cm: "fold (common_step ob True) ks ([], ob, rnd2) = (GL, n2', (\<lambda>n. rnd2 (n + length ks)))"
      "\<forall>k. obj_get n2' k = (if k \<in> set ks then Some None else obj_get ob k)"
    unfolding GL_def by auto
  have ex: "excess_genes n2' (obj_keys ob) = []"
    using cm(2) by (intro excess_genes_none) (simp add: ks_def)
  have co: "cross_over iid N N True rnd = Inr (off, (\<lambda>n. rnd2 (n + length ks)))"
    using ns(1) cm(1) [unfolded ks_def rnd2_def] ex off(1) [unfolded IDS(2) off0_def]
    by (simp add: cross_over_def N0 Let_def sz0 ob rnd2_def ks_def)
  show ?thesis using co cs ln by blast
qed



section \<open>Selection\<close>

lemma set_insert_by: "set (insert_by after x ys) = insert x (set ys)"
  by (induction ys) auto

lemma length_insert_by: "length (insert_by after x ys) = Suc (length ys)"
  by (induction ys) auto

lemma set_sort_by: "set (sort_by after xs) = set xs"
  by (induction xs) (simp_all add: sort_by_def set_insert_by)

lemma length_sort_by: "length (sort_by after xs) = length xs"
  by (induction xs) (simp_all add: sort_by_def length_insert_by)

lemma population_sort:
  "set (population (sort_population self)) = set (population self)"
  "length (population (sort_population self)) = length (population self)"
  by (simp_all add: sort_population_def set_sort_by length_sort_by)

lemma nth_opt_draw:
  assumes "0 \<le> x" "x < 1" "xs \<noteq> []"
  shows "\<exists>g. nth_opt xs \<lfloor>x * real (length xs)\<rfloor> = Some g \<and> g \<in> set xs"
proof -
  from assms(3) have l: "0 < real (length xs)" by simp
  with assms(1) have 0: "0 \<le> \<lfloor>x * real (length xs)\<rfloor>" by simp
  from assms(2) l have "x * real (length xs) < real (length xs)" by simp
  then have 1: "\<lfloor>x * real (length xs)\<rfloor> < int (length xs)"
    by (simp add: floor_less_iff)
  from 0 1 have "nat \<lfloor>x * real (length xs)\<rfloor> < length xs" by linarith
  with 0 1 show ?thesis by (simp add: nth_opt_def)
qed

lemma nth_opt_rounded_draw:
  assumes "0 \<le> x" "x \<le> 1 - 1 / 2 ^ 53" "xs \<noteq> []" "length xs < 2 ^ 53"
  shows "\<exists>g. nth_opt xs \<lfloor>double (x * real (length xs))\<rfloor> = Some g \<and> g \<in> set xs"
proof -
  from assms(3) have "0 < length xs" by simp
  from floor_double_index [OF assms(1,2) this assms(4)]
  have i: "0 \<le> \<lfloor>double (x * real (length xs))\<rfloor>"
    "\<lfloor>double (x * real (length xs))\<rfloor> < int (length xs)"
    by simp_all
  then have "nat \<lfloor>double (x * real (length xs))\<rfloor> < length xs" by linarith
  with i show ?thesis by (simp add: nth_opt_def)
qed

lemma pow_draw:
  assumes "0 \<le> r" "r \<le> 1 - 1 / 2 ^ 53" "1 \<le> p"
  shows "\<exists>x. pow r p = Some x \<and> 0 \<le> x \<and> x \<le> 1 - 1 / 2 ^ 53"
proof (cases "r = 0")
  case True
  with assms(3) show ?thesis by (simp add: pow_def)
next
  case False
  with assms(1) have r: "0 < r" by simp
  from assms(2) have "r \<le> 1" by simp
  with r assms(3) have "r powr p \<le> r powr 1"
    by (intro powr_mono') simp_all
  with r assms(2) have le: "r powr p \<le> 1 - 1 / 2 ^ 53" by simp
  have pos: "0 < r powr p" using r by simp
  from double_below_one [OF pos le] double_nonneg [of "r powr p"] False show ?thesis
    by (simp add: pow_def)
qed

text \<open>With a small positive power, \<^verbatim>\<open>Math.pow\<close> rounds to 1 and the index is the length
  of the population.\<close>

lemma pow_small_power: "pow (1 / 2) (1 / 10 ^ 17) = Some 1"
proof -
  have "double ((1 / 2) powr (1 / 10 ^ 17)) = 1"
    by (rule double_pow_small) simp_all
  then show ?thesis by (simp add: pow_def)
qed

lemma proportionate_pick_mem:
  "proportionate_pick random m v pop = Some g \<Longrightarrow> g \<in> set pop"
  by (induction pop arbitrary: v) (auto simp: Let_def split: if_split_asm)

lemma tournament_pick_mem:
  "xs \<noteq> [] \<Longrightarrow> \<exists>x rnd'. tournament_pick pr xs rnd = (Some x, rnd') \<and> x \<in> set xs"
proof (induction xs arbitrary: rnd)
  case Nil
  then show ?case by simp
next
  case (Cons x xs)
  show ?case
  proof (cases "rhd rnd < pr \<or> xs = []")
    case True
    then show ?thesis by auto
  next
    case False
    with Cons.IH [of "rtl rnd"] show ?thesis by auto
  qed
qed

lemma sort_individuals_defined:
  assumes "\<forall>x\<in>set inds. \<exists>g. x = Some g \<and> g \<in> S"
  shows "length (sort_individuals inds) = length inds"
    and "\<forall>x\<in>set (sort_individuals inds). \<exists>g. x = Some g \<and> g \<in> S"
proof -
  have f: "filter (\<lambda>x. x = None) inds = []"
    using assms by (auto simp: filter_empty_conv)
  have c: "map Some (concat (map (\<lambda>x. case x of None \<Rightarrow> [] | Some g \<Rightarrow> [g]) inds)) = inds"
    using assms by (induction inds) auto
  then have l: "length (concat (map (\<lambda>x. case x of None \<Rightarrow> [] | Some g \<Rightarrow> [g]) inds)) = length inds"
    by (metis length_map)
  show "length (sort_individuals inds) = length inds"
    by (simp add: sort_individuals_def f length_sort_by l)
  have "set (concat (map (\<lambda>x. case x of None \<Rightarrow> [] | Some g \<Rightarrow> [g]) inds)) \<subseteq> S"
    using assms by (induction inds) auto
  then show "\<forall>x\<in>set (sort_individuals inds). \<exists>g. x = Some g \<and> g \<in> S"
    by (auto simp: sort_individuals_def f set_sort_by)
qed


section \<open>One generation\<close>

text \<open>The configuration that no step of \<open>evolve\<close> changes.\<close>

lemma sort_population_fields:
  "popsize (sort_population self) = popsize self"
  "elitism (sort_population self) = elitism self"
  "provenance (sort_population self) = provenance self"
  "generation (sort_population self) = generation self"
  by (simp_all add: sort_population_def)

lemma evaluate_fields:
  "popsize (evaluate self d) = popsize self"
  "elitism (evaluate self d) = elitism self"
  "provenance (evaluate self d) = provenance self"
  "generation (evaluate self d) = generation self"
  by (simp_all add: evaluate_def sort_population_def Let_def)

lemma length_evaluate: "length (population (evaluate self d)) = length (population self)"
  by (simp add: evaluate_def sort_population_def length_sort_by set_scores_def Let_def)

lemma foldE_filter_step:
  "foldE (filter_step pick adjust) pop (acc, rnd) = Inr (pop', rnd')
   \<Longrightarrow> length pop' = length acc + length pop"
proof (induction pop arbitrary: acc rnd)
  case Nil
  then show ?case by simp
next
  case (Cons g pop)
  from Cons.prems obtain acc1 rnd1 where
    1: "filter_step pick adjust g (acc, rnd) = Inr (acc1, rnd1)"
    and 2: "foldE (filter_step pick adjust) pop (acc1, rnd1) = Inr (pop', rnd')"
    by (auto split: sum.split_asm)
  from 1 have "length acc1 = Suc (length acc)"
    by (auto simp: filter_step_def elim!: bindE_InrE split: option.split_asm bool.split_asm)
  with Cons.IH [OF 2] show ?case by simp
qed

lemma filter_population_result:
  assumes "filter_population self pick adjust rnd = Inr (self', rnd')"
  shows "length (population self') = length (population self)"
    "popsize self' = popsize self" "elitism self' = elitism self"
    "provenance self' = provenance self" "generation self' = generation self"
  using assms foldE_filter_step [of pick' adjust "population self" "[]" rnd for pick']
  by (auto simp: filter_population_def filterGenome_def elim!: bindE_InrE
      split: option.split_asm)

lemma getParent_fields:
  assumes "getParent self rnd = Inr (g, self', rnd')"
  shows "popsize self' = popsize self" "elitism self' = elitism self"
    "provenance self' = provenance self" "generation self' = generation self"
proof -
  from assms have "self' = self \<or> self' = sort_population self"
    by (auto simp: getParent_def Let_def
        split: selection.split_asm list.split_asm if_split_asm prod.split_asm option.split_asm)
  then show "popsize self' = popsize self" "elitism self' = elitism self"
    "provenance self' = provenance self" "generation self' = generation self"
    by (auto simp: sort_population_fields)
qed

lemma getOffspring_fields:
  assumes "getOffspring iid self rnd = Inr (g, self', rnd')"
  shows "popsize self' = popsize self" "elitism self' = elitism self"
    "provenance self' = provenance self" "generation self' = generation self"
proof -
  from assms obtain p1 self1 rnd1 p2 rnd2 where
    "getParent self rnd = Inr (p1, self1, rnd1)" "getParent self1 rnd1 = Inr (p2, self', rnd2)"
    by (auto simp: getOffspring_def elim!: bindE_InrE split: option.split_asm)
  from getParent_fields [OF this(1)] getParent_fields [OF this(2)]
  show "popsize self' = popsize self" "elitism self' = elitism self"
    "provenance self' = provenance self" "generation self' = generation self"
    by simp_all
qed

lemma breed_result:
  "breed iid n self rnd = Inr (children, self', rnd')
   \<Longrightarrow> length children = n \<and> popsize self' = popsize self \<and> elitism self' = elitism self
       \<and> provenance self' = provenance self \<and> generation self' = generation self"
proof (induction n arbitrary: self rnd children)
  case 0
  then show ?case by simp
next
  case (Suc n)
  from Suc.prems obtain child self1 rnd1 rest where
    1: "getOffspring iid self rnd = Inr (child, self1, rnd1)"
    and 2: "breed iid n self1 rnd1 = Inr (rest, self', rnd')" and 3: "children = child # rest"
    by (auto elim!: bindE_InrE)
  from Suc.IH [OF 2] getOffspring_fields [OF 1] 3 show ?case by simp
qed

lemma next_population_result:
  assumes "next_population iid self rnd = Inr (pop, self', rnd')"
  shows "0 \<le> provenance self"
    "length pop = nat (provenance self) + nat (popsize self - elitism self - provenance self)"
    "popsize self' = popsize self" "elitism self' = elitism self"
    "provenance self' = provenance self" "generation self' = generation self"
proof -
  from assms show 0: "0 \<le> provenance self"
    by (auto simp: next_population_def split: if_split_asm)
  with assms obtain children rnd1 where
    "breed iid (nat (popsize self - elitism self - provenance self)) self rnd1
      = Inr (children, self', rnd')"
    "pop = replicate (nat (provenance self)) (fst (projr (from_JSON (to_JSON (template self)) rnd)))
           @ children"
    by (auto simp: next_population_def elim!: bindE_InrE)
  from breed_result [OF this(1)] this(2)
  show "length pop = nat (provenance self) + nat (popsize self - elitism self - provenance self)"
    "popsize self' = popsize self" "elitism self' = elitism self"
    "provenance self' = provenance self" "generation self' = generation self"
    by simp_all
qed

lemma mutate_all_length:
  "mutate_all M self pop rnd = Inr (pop', rnd') \<Longrightarrow> length pop' = length pop"
proof (induction pop arbitrary: rnd pop')
  case Nil
  then show ?case by simp
next
  case (Cons g pop)
  from Cons.prems obtain g' rnd1 rest where
    "mutate_all M self pop rnd1 = Inr (rest, rnd')" "pop' = g' # rest"
    by (auto elim!: bindE_InrE)
  with Cons.IH [of rnd1 rest] show ?case by simp
qed

lemma Neat_mutate_result:
  assumes "Neat_mutate M self rnd = Inr (self', rnd')"
  shows "length (population self') = length (population self)"
    "popsize self' = popsize self" "elitism self' = elitism self"
    "provenance self' = provenance self" "generation self' = generation self"
  using assms mutate_all_length [of M self "population self" rnd]
  by (auto simp: Neat_mutate_def elim!: bindE_InrE)

lemma fittest_of_result:
  assumes "fittest_of self rnd = Inr (self', fittest, rnd')"
  shows "length (population self') = length (population self)"
    "popsize self' = popsize self" "generation self' = generation self + 1"
  using assms
  by (auto simp: fittest_of_def elim!: bindE_InrE split: list.split_asm)


section \<open>An example generation\<close>

lemma Network_1_1:
  "Network (Some 1) (Some 1) (\<lambda>n. c) = Inr (fresh_network 1 1 (\<lambda>n. c), (\<lambda>n. c))"
  by (simp add: Network_Some)

lemma fresh_1_1:
  "fresh_network 1 1 (\<lambda>n. c) =
     \<lparr> input_size = 1, output_size = 1, input = 1, output = 1,
       nodes = [new_Node 0 Input, new_Node 1 Output],
       connections = [\<lparr> cid = 0, cfrom = 0, cto = 1, weight = initial_weight 1 c, gater = None \<rparr>],
       gates = [], selfconns = [], dropout = 0, score = None,
       next_node = 2, next_conn = 1 \<rparr>"
  by (simp add: fresh_eval)

lemma example_nodes:
  "foldE (offspring_node (example_genome s) (example_genome s) 2 1) [0 ..< 2]
         ([], 2, (\<lambda>n. 1 / 2))
   = Inr ([new_Node 2 Input, new_Node 3 Output], 4, (\<lambda>n. 1 / 2))"
  by (simp add: eval_nat_numeral offspring_node_def example_genome_def nth_opt_def Let_def
      rhd_def rtl_def new_Node_def)

lemma example_genes:
  "genes_of (example_genome s) = [\<lparr> g_weight = 1, g_from = 0, g_to = 1, g_gater = - 1 \<rparr>]"
  by (simp add: genes_of_def example_genome_def conn_gene_def indexOf_int_def gater_index_def
      new_Node_def)

lemma example_object:
  "conns_object example_iid (example_genome s)
   = [(2, Some \<lparr> g_weight = 1, g_from = 0, g_to = 1, g_gater = - 1 \<rparr>)]"
  by (simp add: conns_object_def example_genes obj_set_def example_iid_def)

lemma example_common:
  "fold (common_step [(2, Some g)] True) (rev (obj_keys [(2 :: nat, Some g)]))
        ([], [(2, Some g)], (\<lambda>n. c))
   = ([g], [(2, None)], (\<lambda>n. c))"
  by (simp add: obj_keys_def common_step_def obj_get_def obj_set_def rhd_def rtl_def)

lemma example_size: "drawn_size 2 2 (1 / 2) = 2"
  by (simp add: drawn_size_def double_half double_5_2)

lemma example_excess: "excess_genes [(2, None)] (obj_keys [(2 :: nat, Some g)]) = []"
  by (simp add: obj_keys_def excess_genes_def obj_get_def)

lemma example_add_gene:
  "add_gene 2 \<lparr> g_weight = 1, g_from = 0, g_to = 1, g_gater = - 1 \<rparr>
     ((fresh_network 1 1 (\<lambda>n. c))
        \<lparr> connections := [], nodes := [new_Node 2 Input, new_Node 3 Output], next_node := 4 \<rparr>)
   = Inr example_child"
  by (simp add: fresh_1_1 add_gene_def nth_opt_def connect_def isProjectingTo_def
      set_ref_weight_def update_conn_def new_Node_def example_child_def Let_def)

lemma example_genome_fields:
  "input (example_genome s) = 1" "output (example_genome s) = 1"
  "length (nodes (example_genome s)) = 2" "score (example_genome s) = Some s"
  "length (connections (example_genome s)) = 1"
  by (simp_all add: example_genome_def)

lemma fresh_1_1_next: "next_node (fresh_network 1 1 r) = 2"
  by (simp add: fresh_network_def)

lemma example_cross_over:
  "cross_over example_iid (example_genome s) (example_genome s) True (\<lambda>n. 1 / 2)
   = Inr (example_child, (\<lambda>n. 1 / 2))"
  by (simp add: cross_over_def Network_1_1 Let_def example_genome_fields fresh_1_1_next
      rhd_def rtl_def example_size example_nodes example_object example_common
      example_excess example_add_gene)


lemma example_to_JSON:
  "to_JSON (example_genome s) =
     \<lparr> j_nodes = [\<lparr> j_bias = 0, j_type = Input, j_squash = 0, j_mask = 1 \<rparr>,
                  \<lparr> j_bias = 0, j_type = Output, j_squash = 0, j_mask = 1 \<rparr>],
       j_connections = [\<lparr> j_weight = 1, j_from = 0, j_to = 1, j_gater = None \<rparr>],
       j_input_size = 1, j_output_size = 1, j_dropout = 0, j_input = 1, j_output = 1 \<rparr>"
  "to_JSON (example_child\<lparr> score := x \<rparr>) = to_JSON (example_genome s)"
  by (simp_all add: to_JSON_def example_genome_def example_child_def Node_to_JSON_def
      new_Node_def indexOf_int_def gater_json_def enumerate_eq_zip eval_nat_numeral)

lemma example_from_JSON:
  "from_JSON (to_JSON (example_genome s)) (\<lambda>n. 1 / 2) = Inr (example_child, (\<lambda>n. 1 / 2))"
  unfolding example_to_JSON(1)
  by (simp add: from_JSON_def Network_1_1 fresh_1_1 Let_def Node_from_JSON_def new_Node_def
      add_json_connection_def nth_opt_def connect_def isProjectingTo_def set_ref_weight_def
      update_conn_def example_child_def enumerate_eq_zip eval_nat_numeral)

lemma sort_by_sorted:
  "sorted_wrt (\<lambda>a b. \<not> after a b) xs \<Longrightarrow> sort_by after xs = xs"
proof (induction xs)
  case Nil
  then show ?case by (simp add: sort_by_def)
next
  case (Cons x xs)
  then have "sort_by after xs = xs" by simp
  then have "sort_by after (x # xs) = insert_by after x xs"
    by (simp add: sort_by_def)
  also have "\<dots> = x # xs"
    using Cons.prems by (cases xs) simp_all
  finally show ?case .
qed

lemma example_neat_fields:
  "popsize example_neat = 10" "elitism example_neat = 2" "provenance example_neat = 0"
  "generation example_neat = 0" "equal' example_neat" "\<not> clear example_neat"
  "mutationRate example_neat = 2 / 5" "\<not> fitnessPopulation example_neat"
  "fitness example_neat = (\<lambda>d g. real (length (connections g)))"
  "selection example_neat = POWER 4" "template example_neat = example_genome 0"
  "dataset example_neat = Some ()"
  "population example_neat = map (\<lambda>k. example_genome (real (10 - k))) [0 ..< 10]"
  by (simp_all add: example_neat_def)

lemma example_population:
  "population example_neat
   = example_genome 10 # example_genome 9 # map (\<lambda>k. example_genome (real (10 - k))) [2 ..< 10]"
  "length (population example_neat) = 10"
  "sort_by comes_after (population example_neat) = population example_neat"
proof -
  have "[0 ..< 10] = 0 # 1 # [2 ..< 10]"
    by (simp add: upt_conv_Cons)
  then show "population example_neat
   = example_genome 10 # example_genome 9 # map (\<lambda>k. example_genome (real (10 - k))) [2 ..< 10]"
    by (simp add: example_neat_fields)
  show "length (population example_neat) = 10"
    by (simp add: example_neat_fields)
  have "sorted_wrt (\<lambda>a b. \<not> comes_after (example_genome (real (10 - a)))
                             (example_genome (real (10 - b)))) [0 ..< 10]"
    by (rule sorted_wrt_mono_rel [OF _ sorted_wrt_upt])
      (auto simp: comes_after_def num_less_def example_genome_fields)
  then show "sort_by comes_after (population example_neat) = population example_neat"
    by (intro sort_by_sorted) (simp add: example_neat_fields sorted_wrt_map)
qed

lemma example_getParent:
  "getParent example_neat (\<lambda>n. 1 / 2) = Inr (Some (example_genome 10), example_neat, (\<lambda>n. 1 / 2))"
proof -
  have "(1 / 2 :: real) powr 4 = 1 / 16"
    by (simp add: power_divide)
  then have "double ((1 / 2) powr 4) = 1 / 16"
    by (simp only: double_1_16)
  then have p: "pow (1 / 2) 4 = Some (1 / 16)"
    unfolding pow_def by simp
  have d: "double (1 / 16 * real (length (population example_neat))) = 5 / 8"
    by (simp add: example_population(2) double_5_8)
  have "getParent example_neat (\<lambda>n. 1 / 2)
      = Inr (nth_opt (population example_neat) \<lfloor>5 / 8 :: real\<rfloor>, example_neat, (\<lambda>n. 1 / 2))"
    unfolding d [symmetric]
    by (simp add: getParent_def example_neat_fields(10) example_population(1)
        num_less_def example_genome_fields p rhd_def rtl_def Let_def)
  then show ?thesis
    by (simp add: example_population(1) nth_opt_def)
qed

lemma example_getOffspring:
  "getOffspring example_iid example_neat (\<lambda>n. 1 / 2)
   = Inr (example_child, example_neat, (\<lambda>n. 1 / 2))"
  by (simp add: getOffspring_def example_getParent example_neat_fields(5) example_cross_over)

lemma example_breed:
  "breed example_iid n example_neat (\<lambda>n. 1 / 2)
   = Inr (replicate n example_child, example_neat, (\<lambda>n. 1 / 2))"
  by (induction n) (simp_all add: example_getOffspring)

lemma example_mutate_all:
  "mutationRate self < c \<Longrightarrow> mutate_all M self pop (\<lambda>n. c) = Inr (pop, (\<lambda>n. c))"
  by (induction pop) (simp_all add: mutate_genome_def rhd_def rtl_def)

lemma example_next_population:
  "next_population example_iid example_neat (\<lambda>n. 1 / 2)
   = Inr (replicate 8 example_child, example_neat, (\<lambda>n. 1 / 2))"
  by (simp add: next_population_def example_neat_fields(1-3,11) example_from_JSON example_breed)

lemma example_Neat_mutate:
  "Neat_mutate M (example_neat\<lparr> population := pop \<rparr>) (\<lambda>n. 1 / 2)
   = Inr (example_neat\<lparr> population := pop \<rparr>, (\<lambda>n. 1 / 2))"
  by (simp add: Neat_mutate_def example_mutate_all example_neat_fields(7))

lemma sort_equal_scores:
  "sort_by comes_after (map (\<lambda>g. g\<lparr> score := Some 1 \<rparr>) pop)
   = map (\<lambda>g. g\<lparr> score := Some 1 \<rparr>) pop"
proof -
  have "sorted_wrt (\<lambda>a b. \<not> comes_after a b) (map (\<lambda>g. g\<lparr> score := Some 1 \<rparr>) pop)"
    by (simp add: sorted_wrt_map comes_after_def num_less_def)
  then show ?thesis by (rule sort_by_sorted)
qed

lemma example_evaluate:
  assumes "\<forall>g\<in>set pop. length (connections g) = 1"
  shows "evaluate (example_neat\<lparr> population := pop \<rparr>) ()
         = example_neat\<lparr> population := map (\<lambda>g. g\<lparr> score := Some 1 \<rparr>) pop \<rparr>"
proof -
  have 1: "map (\<lambda>g. g\<lparr> score := Some (real (length (connections g))) \<rparr>) pop
           = map (\<lambda>g. g\<lparr> score := Some 1 \<rparr>) pop"
    using assms by simp
  show ?thesis
    by (simp add: evaluate_def example_neat_fields(6,8,9) 1 sort_population_def
        sort_equal_scores)
qed

lemma example_evolve:
  "\<exists>neat' fittest. evolve example_iid M example_neat None None None (\<lambda>n. 1 / 2)
      = Inr (neat', fittest, (\<lambda>n. 1 / 2))"
proof -
  have f1: "population example_neat \<noteq> []" "score (last (population example_neat)) \<noteq> None"
    by (simp_all add: example_neat_fields(13) last_map example_genome_fields)
  have f3: "filter_population S None None r = Inr (S, r)" for S :: "unit neat" and r
    by (simp add: filter_population_def)
  have f4: "sort_population example_neat = example_neat"
    by (simp add: sort_population_def example_population(3))
  have f5: "None \<notin> (\<lambda>x. nth_opt (population example_neat) (int x)) ` {0 ..< 2}"
    "map (the \<circ> (\<lambda>i. nth_opt (population example_neat) (int i))) [0 ..< 2]
      = [example_genome 10, example_genome 9]"
    by (auto simp: example_population(1) nth_opt_def eval_nat_numeral less_Suc_eq)
  have f6: "evaluation_set (example_neat\<lparr> population := pop \<rparr>) None = Inr ()" for pop
    by (simp add: evaluation_set_def example_neat_fields(12))
  let ?pop = "replicate 8 example_child @ [example_genome 10, example_genome 9]"
  have "\<forall>g\<in>set ?pop. length (connections g) = 1"
    by (simp add: example_genome_fields example_child_def)
  note f8 = example_evaluate [OF this]
  have f9: "sort_population (example_neat\<lparr> population := map (\<lambda>g. g\<lparr> score := Some 1 \<rparr>) ?pop \<rparr>)
      = example_neat\<lparr> population := map (\<lambda>g. g\<lparr> score := Some 1 \<rparr>) ?pop \<rparr>"
    using sort_equal_scores [of ?pop] by (simp add: sort_population_def)
  have f10: "\<exists>neat' fittest.
      fittest_of (example_neat\<lparr> population := map (\<lambda>g. g\<lparr> score := Some 1 \<rparr>) ?pop \<rparr>) (\<lambda>n. 1 / 2)
      = Inr (neat', fittest, (\<lambda>n. 1 / 2))"
    by (simp add: fittest_of_def eval_nat_numeral example_to_JSON(2) [of _ 0] example_from_JSON)
  show ?thesis
    unfolding evolve_def
    using f10
    by (simp add: example_neat_fields(1-3) f1 f3 f4 f5 f6 f8 f9 [simplified] example_next_population
        example_Neat_mutate Let_def)
qed


subsection \<open>A size that rounds up\<close>

lemma drawn_size_2: "drawn_size 2 2 c = \<lfloor>double (double c + 2)\<rfloor>"
  by (simp add: drawn_size_def)

lemma rounded_size: "drawn_size 2 2 last_draw = 3"
  unfolding drawn_size_2 last_draw_def double_largest_draw double_rounds_up by simp

lemma fresh_1_1_fields:
  "input (fresh_network 1 1 r) = 1" "output (fresh_network 1 1 r) = 1"
  "length (nodes (fresh_network 1 1 r)) = 2" "score (fresh_network 1 1 r) = None"
  by (simp_all add: fresh_eval)

lemma rounded_nodes:
  "1 / 2 \<le> c \<Longrightarrow>
   foldE (offspring_node (fresh_network 1 1 (\<lambda>n. c)) (fresh_network 1 1 (\<lambda>n. c)) 3 1) [0 ..< 3]
         ([], 2, (\<lambda>n. c))
   = Inr ([new_Node 2 Input, new_Node 3 Output, new_Node 4 Output], 5, (\<lambda>n. c))"
  by (simp add: eval_nat_numeral offspring_node_def fresh_1_1 nth_opt_def Let_def
      rhd_def rtl_def new_Node_def)

lemma rounded_object:
  "conns_object example_iid (fresh_network 1 1 (\<lambda>n. c))
   = [(2, Some \<lparr> g_weight = initial_weight 1 c, g_from = 0, g_to = 1, g_gater = - 1 \<rparr>)]"
  by (simp add: conns_object_def genes_of_def fresh_1_1 conn_gene_def indexOf_int_def
      gater_index_def new_Node_def obj_set_def example_iid_def)

lemma rounded_add_gene:
  "add_gene 3 \<lparr> g_weight = w, g_from = 0, g_to = 1, g_gater = - 1 \<rparr>
     ((fresh_network 1 1 (\<lambda>n. c))
        \<lparr> connections := [],
           nodes := [new_Node 2 Input, new_Node 3 Output, new_Node 4 Output],
           next_node := 5 \<rparr>)
   = Inr (rounded_child w)"
  by (simp add: fresh_1_1 add_gene_def nth_opt_def connect_def isProjectingTo_def
      set_ref_weight_def update_conn_def new_Node_def rounded_child_def Let_def)

lemma rounded_cross_over:
  "cross_over example_iid (fresh_network 1 1 (\<lambda>n. last_draw))
     (fresh_network 1 1 (\<lambda>n. last_draw)) True (\<lambda>n. last_draw)
   = Inr (rounded_child (initial_weight 1 last_draw), (\<lambda>n. last_draw))"
proof -
  have c: "1 / 2 \<le> last_draw" by (simp add: last_draw_def)
  show ?thesis
    unfolding cross_over_def fresh_1_1_fields Network_1_1
    by (simp add: Let_def fresh_1_1_fields fresh_1_1_next score_or_0_def
        rhd_def rtl_def rounded_size rounded_nodes [OF c] rounded_object example_common
        example_excess rounded_add_gene)
qed


section \<open>C1: the flat export\<close>

text \<open>
  C1: \<open>serialize()\<close> returns the activations, the states and the tokenized
  connection stream. The code raises a TypeError at the first node that has an incoming
  connection (line 1483 reads \<open>node.connectionections.in\<close>). Here: for
  \<open>Network(1, 1)\<close> the call raises, where the specification asks for the stream
  with the one triple of the output node.
\<close>

theorem serialize_raises:
  "serialize (fst (projr (Network (Some 1) (Some 1) rnd))) = Inl TypeError
   \<and> spec_serialize (fst (projr (Network (Some 1) (Some 1) rnd)))
       = ([0, 0], [0, 0], [1, 1, 1, 0, 0, 0, - 1, 0, initial_weight 1 (rnd 0), - 1, - 2])"
  by (simp add: Network_Some serialize_def serialize_node_def spec_serialize_def
      spec_node_stream_def conns_in_def nth_opt_def indexOf_int_def fresh_eval upto.simps)


section \<open>C2: the partition of the node list\<close>

text \<open>
  C2: for every Network, after construction (with sizes that are not negative) and
  after every mutation that \<open>mutate\<close> performs, whatever the method, its parameters
  and the draws (in particular \<open>ADD_NODE\<close>, which splices a new hidden node into
  the node list), the nodes at the indices \<open>[0, input_size)\<close> all have type input
  and the nodes at the indices \<open>[length - output_size, length)\<close> all have type
  output.
\<close>

theorem reachable_partitioned:
  assumes "reachable net"
  shows "partitioned net"
  using reachable_consistent [OF assms] by (simp add: consistent_def)

theorem reachable_partitioned_witness:
  "\<exists>net rnd'. mutate example_methods (fst (projr (Network (Some 2) (Some 1) (const_rand (1 / 2)))))
         (Method ADD_NODE) (const_rand (1 / 2)) = Inr (net, rnd')
     \<and> map ntype (nodes net) = [Input, Input, Hidden, Output]
     \<and> input_size net = 2 \<and> output_size net = 1 \<and> partitioned net"
proof -
  let ?N = "fst (projr (Network (Some 2) (Some 1) (const_rand (1 / 2))))"
  have "\<exists>net rnd'. mutate example_methods ?N (Method ADD_NODE) (const_rand (1 / 2)) = Inr (net, rnd')
     \<and> map ntype (nodes net) = [Input, Input, Hidden, Output]
     \<and> input_size net = 2 \<and> output_size net = 1"
    by (simp add: Network_Some fresh_eval mutate_eval example_methods_def)
  then obtain net rnd' where
    m: "mutate example_methods ?N (Method ADD_NODE) (const_rand (1 / 2)) = Inr (net, rnd')"
    and t: "map ntype (nodes net) = [Input, Input, Hidden, Output]"
      "input_size net = 2" "output_size net = 1"
    by auto
  have "reachable ?N"
    by (rule constructed [of 2 1 "const_rand (1 / 2)" _ "snd (projr (Network (Some 2) (Some 1) (const_rand (1 / 2))))"])
      (simp_all add: Network_Some)
  then have "reachable net" using m by (rule mutated)
  from reachable_partitioned [OF this] m t show ?thesis by simp
qed


section \<open>C3: activate and the length of its input\<close>

text \<open>
  C3 (as stated): for an input array whose length differs from \<open>input_size\<close>,
  \<open>activate\<close> fails rather than returning an output. The code has no such check
  (lines 96-113): on \<open>Network(2, 1)\<close> with weights 1 and the identity as squash,
  \<open>activate([3, 4, 5])\<close> returns \<open>[7]\<close> and \<open>activate([3])\<close> returns \<open>[3]\<close>.
\<close>

theorem activate_wrong_length_counterexample:
  "(case activate identity_squash (fst (projr (Network (Some 2) (Some 1) (const_rand (1 / 2)))))
           (Some [3, 4, 5]) False (const_rand 0) of
      Inl e \<Rightarrow> False
    | Inr (net, r, out) \<Rightarrow> out = [7])
   \<and> (case activate identity_squash (fst (projr (Network (Some 2) (Some 1) (const_rand (1 / 2)))))
           (Some [3]) False (const_rand 0) of
      Inl e \<Rightarrow> False
    | Inr (net, r, out) \<Rightarrow> out = [3])"
  by (simp add: Network_Some activate_def activate_step_def Node_activate_def update_node_def
      get_node_def conns_in_def gain_def activation_of_def identity_squash_def
      nth_opt_def initial_weight_def const_rand_def fresh_eval Let_def)

text \<open>
  C3 (amended): \<open>activate(input, training)\<close> does not compare the length of
  \<open>input\<close> with \<open>input_size\<close>: for every network and every input array, of any
  length, it returns, and its output has one activation per output node.
\<close>

theorem activate_never_checks_length:
  "\<exists>net' rnd' out. activate F self (Some xs) training rnd = Inr (net', rnd', out)
     \<and> length out = length (filter (\<lambda>x. ntype x = Output) (nodes self))"
proof -
  from foldE_activate_step [of "[0 ..< length (nodes self)]" self F xs training rnd "[]"]
  obtain net' rnd' out' where
    "foldE (activate_step F (Some xs) training) [0 ..< length (nodes self)] (self, rnd, []) = Inr (net', rnd', out')"
    "length out' = length (filter (\<lambda>k. ntype (nodes self ! k) = Output) [0 ..< length (nodes self)])"
    by auto
  then show ?thesis
    by (simp add: activate_def length_filter_nth [of "\<lambda>x. ntype x = Output"])
qed

theorem activate_never_checks_length_witness:
  "\<exists>net' rnd' out. activate identity_squash example_net (Some [1, 2, 3]) True (const_rand 0)
        = Inr (net', rnd', out) \<and> length out = 1 \<and> input_size example_net = 1"
  using activate_never_checks_length [of identity_squash example_net "[1, 2, 3]" True "const_rand 0"]
  by (simp add: example_net_def)

section \<open>C4: when the constructor fails\<close>

text \<open>
  C4 (as stated): constructing a Network fails whenever \<open>input_size\<close> or \<open>output_size\<close>
  is unspecified or non-positive; in particular \<open>Network(0, 1)\<close> and \<open>Network(2, -1)\<close>
  fail. The constructor only tests for \<^verbatim>\<open>undefined\<close> (lines 41-43): \<open>Network(0, 1)\<close>
  returns a network of one output node, \<open>Network(2, -1)\<close> a network of one input
  node, both without connections.
\<close>

theorem Network_nonpositive_counterexample:
  "(case Network (Some 0) (Some 1) (const_rand 0) of
      Inl e \<Rightarrow> False
    | Inr (net, r) \<Rightarrow> map ntype (nodes net) = [Output] \<and> connections net = [])
   \<and> (case Network (Some 2) (Some (- 1)) (const_rand 0) of
      Inl e \<Rightarrow> False
    | Inr (net, r) \<Rightarrow> map ntype (nodes net) = [Input] \<and> connections net = [])"
  by (simp add: Network_Some fresh_network_def initial_nodes_def initial_pairs_def dense_from_def
      eval_nat_numeral)

text \<open>
  C4 (amended): constructing a Network fails, with the error ``No input or output size
  given'', exactly when \<open>input_size\<close> or \<open>output_size\<close> is unspecified; for all
  integer sizes, positive or not, it returns a network.
\<close>

theorem Network_fails_iff:
  "(Network i o' rnd = Inl NoSizeGiven \<longleftrightarrow> (i = None \<or> o' = None))
   \<and> (isl (Network i o' rnd) \<longleftrightarrow> (i = None \<or> o' = None))"
proof (cases i)
  case None
  then show ?thesis by (simp add: Network_def)
next
  case (Some a)
  then show ?thesis by (cases o') (simp_all add: Network_def [of "Some a" None] Network_Some)
qed

theorem Network_fails_iff_witness:
  "Network None (Some 1) (const_rand 0) = Inl NoSizeGiven
   \<and> \<not> isl (Network (Some 0) (Some 1) (const_rand 0))
   \<and> \<not> isl (Network (Some 2) (Some (- 1)) (const_rand 0))
   \<and> \<not> isl (Network (Some 2) (Some 1) (const_rand 0))"
  using Network_fails_iff [of None "Some 1" "const_rand 0"]
    Network_fails_iff [of "Some 0" "Some 1" "const_rand 0"]
    Network_fails_iff [of "Some 2" "Some (- 1)" "const_rand 0"]
    Network_fails_iff [of "Some 2" "Some 1" "const_rand 0"]
  by simp

section \<open>C5: crossing a network with itself\<close>

text \<open>
  C5: for every Network \<open>N\<close>, \<open>cross_over(N, N, equal = true)\<close> returns an offspring
  with as many nodes as \<open>N\<close> and with the connection set of \<open>N\<close>. The size of the
  offspring is drawn at line 1635 as
  \<^verbatim>\<open>Math.floor(Math.random() * (max - min + 1) + min)\<close>, which the documentation of the
  option \<^verbatim>\<open>equal\<close> describes as a number of neurons within the range of the parents'
  numbers of neurons. For \<open>N = new Network(1, 1)\<close> and the draw \<open>1 - 1 / 2 ^ 52\<close> the
  sum \<open>(1 - 1 / 2 ^ 52) + 2\<close> is the double 3: the offspring has the three nodes input,
  output, output, where \<open>N\<close> has two. Its connection set is that of \<open>N\<close>.
\<close>

theorem cross_over_self_rounds_size_up:
  "(case cross_over example_iid
          (fst (projr (Network (Some 1) (Some 1) (const_rand last_draw))))
          (fst (projr (Network (Some 1) (Some 1) (const_rand last_draw))))
          True (const_rand last_draw) of
      Inl e \<Rightarrow> False
    | Inr (offspring, rnd') \<Rightarrow>
        map ntype (nodes offspring) = [Input, Output, Output]
        \<and> conn_set offspring
            = conn_set (fst (projr (Network (Some 1) (Some 1) (const_rand last_draw)))))
   \<and> map ntype (nodes (fst (projr (Network (Some 1) (Some 1) (const_rand last_draw)))))
       = [Input, Output]
   \<and> 0 \<le> last_draw \<and> last_draw < 1"
proof -
  have n: "fst (projr (Network (Some 1) (Some 1) (const_rand last_draw)))
           = fresh_network 1 1 (\<lambda>n. last_draw)"
    by (simp add: const_rand_def Network_1_1)
  have c: "conn_set (rounded_child w) = {(0, 1, w)}"
    "conn_set (fresh_network 1 1 (\<lambda>n. last_draw)) = {(0, 1, initial_weight 1 last_draw)}" for w
    by (simp_all add: conn_set_def genes_of_def rounded_child_def fresh_1_1 conn_gene_def
        indexOf_int_def gater_index_def new_Node_def)
  have t: "map ntype (nodes (rounded_child w)) = [Input, Output, Output]"
    "map ntype (nodes (fresh_network 1 1 (\<lambda>n. last_draw))) = [Input, Output]" for w
    by (simp_all add: rounded_child_def fresh_1_1 new_Node_def)
  have d: "0 \<le> last_draw" "last_draw < 1"
    by (simp_all add: last_draw_def)
  show ?thesis
    unfolding n using d by (simp add: const_rand_def rounded_cross_over c t)
qed

theorem cross_over_self_rounds_size_up_witness:
  "input (fst (projr (Network (Some 1) (Some 1) (const_rand last_draw)))) = 1
   \<and> output (fst (projr (Network (Some 1) (Some 1) (const_rand last_draw)))) = 1
   \<and> length (nodes (fst (projr (Network (Some 1) (Some 1) (const_rand last_draw))))) = 2
   \<and> length (nodes (fst (projr
         (cross_over example_iid
            (fst (projr (Network (Some 1) (Some 1) (const_rand last_draw))))
            (fst (projr (Network (Some 1) (Some 1) (const_rand last_draw))))
            True (const_rand last_draw))))) = 3"
proof -
  let ?N = "fst (projr (Network (Some 1) (Some 1) (const_rand last_draw)))"
  from cross_over_self_rounds_size_up obtain offspring rnd' where
    c: "cross_over example_iid ?N ?N True (const_rand last_draw) = Inr (offspring, rnd')"
    and t: "map ntype (nodes offspring) = [Input, Output, Output]"
    and n: "map ntype (nodes ?N) = [Input, Output]"
    by (auto split: sum.split_asm)
  from t have "length (map ntype (nodes offspring)) = 3" by simp
  moreover from n have "length (map ntype (nodes ?N)) = 2" by simp
  moreover have "input ?N = 1" "output ?N = 1"
    by (simp_all add: Network_Some fresh_network_def)
  ultimately show ?thesis using c by simp
qed

section \<open>C6: one generation keeps the size of the population\<close>

text \<open>
  C6: for a population manager with \<open>popsize = 10\<close>, \<open>elitism = 2\<close> and
  \<open>provenance = 0\<close>, and generally whenever \<open>elitism + provenance \<le> popsize\<close> (which
  \<open>evolve\<close> checks first; the elitism is a count, not negative), after one call of
  \<open>evolve()\<close> that returns, the population has \<open>popsize\<close> genomes, whatever its length
  was before, and \<open>generation\<close> is larger by exactly 1. This holds for every data set,
  every fitness function, with and without the callbacks \<open>pickGenome\<close> and
  \<open>adjustGenome\<close>, and for every sequence of draws.
\<close>

theorem evolve_keeps_population_size:
  assumes "evolve iid M self evolveSet pick adjust rnd = Inr (self', fittest, rnd')"
    and "0 \<le> elitism self"
  shows "int (length (population self')) = popsize self \<and> popsize self' = popsize self
     \<and> generation self' = generation self + 1"
proof -
  from assms(1) have c: "elitism self + provenance self \<le> popsize self"
    unfolding evolve_def by (simp split: if_split_asm)
  define elitists where "elitists = (\<lambda>self3 :: 'a neat.
     map (\<lambda>i. nth_opt (population self3) (int i)) [0 ..< nat (elitism self3)])"
  define self1 where "self1 = (if score (last (population self)) = None
      then evaluate self (projr (evaluation_set self evolveSet)) else self)"
  from assms(1) obtain self2 rnd2 pop self4 rnd4 self5 rnd5 d self7 rnd7 where
    s2: "filter_population self1 pick adjust rnd = Inr (self2, rnd2)"
    and s4: "next_population iid (sort_population self2) rnd2 = Inr (pop, self4, rnd4)"
    and s5: "Neat_mutate M (self4\<lparr> population := pop \<rparr>) rnd4 = Inr (self5, rnd5)"
    and s7: "filter_population
           (evaluate (self5\<lparr> population := population self5
                                @ map the (elitists (sort_population self2)) \<rparr>) d)
           pick adjust rnd5 = Inr (self7, rnd7)"
    and s8: "fittest_of (sort_population self7) rnd7 = Inr (self', fittest, rnd')"
    unfolding evolve_def Let_def elitists_def self1_def
    by (auto elim!: bindE_InrE split: if_split_asm)
  have f1: "popsize self1 = popsize self" "elitism self1 = elitism self"
    "provenance self1 = provenance self" "generation self1 = generation self"
    by (simp_all add: self1_def evaluate_fields)
  note f2 = filter_population_result(2-5) [OF s2]
  note f4 = next_population_result [OF s4, unfolded sort_population_fields]
  note f5 = Neat_mutate_result [OF s5]
  note f7 = filter_population_result [OF s7, unfolded evaluate_fields length_evaluate]
  note f8 = fittest_of_result [OF s8, unfolded sort_population_fields population_sort]
  have e: "length (elitists (sort_population self2)) = nat (elitism self)"
    by (simp add: elitists_def sort_population_fields f2 f1)
  have p: "popsize self2 = popsize self" "elitism self2 = elitism self"
    "provenance self2 = provenance self"
    using f1 f2 by simp_all
  have "length (population self5)
        = nat (provenance self) + nat (popsize self - elitism self - provenance self)"
    using f5(1) f4(2) p by simp
  then have "length (population self') = nat (provenance self)
        + nat (popsize self - elitism self - provenance self) + nat (elitism self)"
    using f8(1) f7(1) e by simp
  moreover have "0 \<le> provenance self" using f4(1) p by simp
  ultimately have "int (length (population self')) = popsize self"
    using c assms(2) by linarith
  moreover have "popsize self' = popsize self"
    using f8(2) f7(2) f5(2) f4(3) p by simp
  moreover have "generation self' = generation self + 1"
    using f8(3) f7(5) f5(5) f4(6) f2(4) f1(4) by simp
  ultimately show ?thesis by simp
qed


theorem evolve_keeps_population_size_witness:
  "popsize example_neat = 10 \<and> elitism example_neat = 2 \<and> provenance example_neat = 0
   \<and> (\<exists>neat' fittest rnd'.
         evolve example_iid example_methods example_neat None None None (const_rand (1 / 2))
           = Inr (neat', fittest, rnd')
         \<and> length (population neat') = 10 \<and> popsize neat' = 10
         \<and> generation neat' = generation example_neat + 1)"
proof -
  from example_evolve [of example_methods] obtain neat' fittest where
    e: "evolve example_iid example_methods example_neat None None None (\<lambda>n. 1 / 2)
          = Inr (neat', fittest, (\<lambda>n. 1 / 2))"
    by blast
  have h: "0 \<le> elitism example_neat"
    by (simp add: example_neat_fields)
  from evolve_keeps_population_size [OF e h] e show ?thesis
    by (auto simp: example_neat_fields const_rand_def)
qed

section \<open>C7: when SWAP\_NODES is possible\<close>

text \<open>
  C7: \<open>possible(SWAP_NODES)\<close> returns candidates exactly when the network has at
  least 2 eligible nodes. The early exit of line 479 subtracts one node too many
  (\<open>nodes.length - 1\<close>), so with exactly two eligible nodes the code reports
  impossible, although the test of line 486 asks for two. Here: the network
  \<open>Network(1, 2)\<close> with output mutation allowed has the two outputs as eligible
  nodes, and \<open>possible\<close> returns \<open>false\<close>.
\<close>

theorem possible_SWAP_NODES_two_eligible:
  "possible (M\<lparr> swap_mutateOutput := True \<rparr>) (fst (projr (Network (Some 1) (Some 2) rnd)))
     SWAP_NODES = Inr None
   \<and> map ntype (swap_eligible True (fst (projr (Network (Some 1) (Some 2) rnd))))
       = [Output, Output]"
  by (simp add: Network_Some possible_def swap_eligible_def fresh_eval)


section \<open>C8: getParent returns a member of the population\<close>

text \<open>
  C8 (as stated): for every evaluated population and each of \<open>POWER\<close>,
  \<open>FITNESS_PROPORTIONATE\<close> and \<open>TOURNAMENT\<close> with a tournament size that is at most
  \<open>popsize\<close>, \<open>getParent()\<close> returns an element of the population, never
  \<open>undefined\<close>. A tournament of size 0 passes the check of the size, runs neither
  loop and leaves the switch: the result is \<open>undefined\<close>. With \<open>POWER\<close> and a
  population of one evaluated genome, \<open>population[1].score\<close> is read from
  \<open>undefined\<close>.
\<close>

theorem getParent_undefined_counterexample:
  "(case getParent (example_neat\<lparr> selection := TOURNAMENT 0 (1 / 2) \<rparr>) (const_rand 0) of
      Inl e \<Rightarrow> False
    | Inr (genome, self', rnd') \<Rightarrow> genome = None)
   \<and> getParent (example_neat\<lparr> popsize := 1, population := [example_genome 1] \<rparr>) (const_rand 0)
        = Inl TypeError
   \<and> list_all (\<lambda>g. score g \<noteq> None) (population example_neat)
   \<and> popsize example_neat = 10"
  by (simp add: getParent_def example_neat_def Let_def sort_individuals_def sort_by_def
      example_genome_def list_all_iff)

text \<open>
  C8 (amended): for every non-empty population and every sequence of draws in
  \<open>[0, 1)\<close>, \<open>getParent()\<close> returns an element of the population, which is the
  population at the call up to its order, with \<open>POWER\<close> when the power is at least 1
  and the population has two genomes or more, with \<open>FITNESS_PROPORTIONATE\<close>, and
  with \<open>TOURNAMENT\<close> when the tournament size is at least 1 and at most \<open>popsize\<close>.
  For \<open>POWER\<close> the draw is a double below 1, so at most \<open>1 - 1 / 2 ^ 53\<close>, and the
  population an array, of fewer than \<open>2 ^ 32\<close> genomes; the power of the draw and its
  product with the length are rounded to doubles.
\<close>

theorem getParent_returns_member:
  assumes "valid_rand rnd" "population self \<noteq> []"
    and "case selection self of
           POWER p \<Rightarrow> 1 \<le> p \<and> 2 \<le> length (population self)
               \<and> length (population self) < 2 ^ 32 \<and> rhd rnd \<le> 1 - 1 / 2 ^ 53
         | FITNESS_PROPORTIONATE \<Rightarrow> True
         | TOURNAMENT s pr \<Rightarrow> 1 \<le> s \<and> s \<le> popsize self
         | OTHER_SELECTION \<Rightarrow> False"
  shows "\<exists>g self' rnd'. getParent self rnd = Inr (Some g, self', rnd')
     \<and> g \<in> set (population self') \<and> set (population self') = set (population self)
     \<and> length (population self') = length (population self)"
proof (cases "selection self")
  case (POWER p)
  with assms(3) have p: "1 \<le> p" "2 \<le> length (population self)"
    "length (population self) < 2 ^ 32" "rhd rnd \<le> 1 - 1 / 2 ^ 53"
    by simp_all
  then obtain a b rest where pop: "population self = a # b # rest"
    by (cases "population self"; cases "tl (population self)") auto
  define self' where "self' = (if num_less (score a) (score b) then sort_population self else self)"
  have s: "set (population self') = set (population self)"
    "length (population self') = length (population self)"
    by (simp_all add: self'_def population_sort)
  from assms(1) have r: "0 \<le> rhd rnd" by (simp add: valid_rand_def rhd_def)
  from pow_draw [OF r p(4) p(1)] obtain x where
    x: "pow (rhd rnd) p = Some x" "0 \<le> x" "x \<le> 1 - 1 / 2 ^ 53"
    by blast
  from s(2) assms(2) have ne: "population self' \<noteq> []" by auto
  have "(2::nat) ^ 32 < 2 ^ 53" by simp
  with p(3) s(2) have "length (population self') < 2 ^ 53" by linarith
  from nth_opt_rounded_draw [OF x(2,3) ne this] obtain g where
    g: "nth_opt (population self') \<lfloor>double (x * real (length (population self')))\<rfloor> = Some g"
      "g \<in> set (population self')"
    by blast
  have "getParent self rnd = Inr (Some g, self', rtl rnd)"
    using g(1) by (simp add: getParent_def POWER pop x(1) self'_def Let_def)
  with g(2) s show ?thesis by blast
next
  case FITNESS_PROPORTIONATE
  from assms(1) have r: "0 \<le> rhd (rtl rnd)" "rhd (rtl rnd) < 1"
    by (simp_all add: valid_rand_def rhd_def rtl_def)
  from nth_opt_draw [OF r assms(2)] obtain g where
    g: "nth_opt (population self) (random_index (rhd (rtl rnd)) (length (population self))) = Some g"
      "g \<in> set (population self)"
    by (auto simp: random_index_def)
  show ?thesis
    using g proportionate_pick_mem
    by (auto simp: getParent_def FITNESS_PROPORTIONATE Let_def split: prod.splits option.splits)
next
  case (TOURNAMENT s pr)
  with assms(3) have s: "1 \<le> s" "s \<le> popsize self" by simp_all
  define n where "n = nat s"
  define inds where
    "inds = map (\<lambda>i. nth_opt (population self)
                        (random_index (rnd i) (length (population self)))) [0 ..< n]"
  have d: "\<forall>x\<in>set inds. \<exists>g. x = Some g \<and> g \<in> set (population self)"
  proof
    fix x assume "x \<in> set inds"
    then obtain i where "x = nth_opt (population self)
                        (random_index (rnd i) (length (population self)))"
      by (auto simp: inds_def)
    moreover from assms(1) have "0 \<le> rnd i" "rnd i < 1" by (simp_all add: valid_rand_def)
    ultimately show "\<exists>g. x = Some g \<and> g \<in> set (population self)"
      using nth_opt_draw [OF _ _ assms(2), of "rnd i"] by (simp add: random_index_def)
  qed
  from s(1) have "0 < n" by (simp add: n_def)
  then have "length inds = n" "inds \<noteq> []" by (auto simp: inds_def)
  with sort_individuals_defined(1) [OF d] have ne: "sort_individuals inds \<noteq> []"
    by (metis length_0_conv)
  from tournament_pick_mem [OF ne, of pr "\<lambda>i. rnd (i + n)"] obtain x rnd' where
    t: "tournament_pick pr (sort_individuals inds) (\<lambda>i. rnd (i + n)) = (Some x, rnd')"
      "x \<in> set (sort_individuals inds)"
    by blast
  with sort_individuals_defined(2) [OF d] obtain g where g: "x = Some g" "g \<in> set (population self)"
    by blast
  have "getParent self rnd = Inr (Some g, self, rnd')"
    using s(2) t(1) g(1)
    by (simp add: getParent_def TOURNAMENT Let_def n_def [symmetric] inds_def [symmetric])
  with g(2) show ?thesis by blast
next
  case OTHER_SELECTION
  with assms(3) show ?thesis by simp
qed


theorem getParent_returns_member_witness:
  "valid_rand (const_rand 0) \<and> population example_neat \<noteq> []
   \<and> selection example_neat = POWER 4 \<and> length (population example_neat) = 10
   \<and> (\<exists>g self' rnd'. getParent example_neat (const_rand 0) = Inr (Some g, self', rnd')
         \<and> g \<in> set (population self') \<and> set (population self') = set (population example_neat)
         \<and> length (population self') = length (population example_neat))"
proof -
  have h: "valid_rand (const_rand 0)" "population example_neat \<noteq> []"
    "selection example_neat = POWER 4" "length (population example_neat) = 10"
    "rhd (const_rand 0) \<le> 1 - 1 / 2 ^ 53"
    by (simp_all add: valid_rand_def const_rand_def example_neat_def rhd_def)
  from getParent_returns_member [of "const_rand 0" example_neat] h show ?thesis
    by simp
qed

section \<open>C9: remove leaves no connection of the removed node\<close>

text \<open>
  C9: for every Network and every node of it, after \<open>remove(node)\<close> has returned, no
  connection in \<open>connections\<close> has the removed node as its \<open>from\<close> or \<open>to\<close>, and
  \<open>selfconns\<close> does not hold its self-connection. \<open>remove\<close> calls
  \<open>disconnect(node, node)\<close> at lines 346 and 399, under the comments
  \<^verbatim>\<open>Remove selfconnections from this.selfconns\<close> and \<^verbatim>\<open>Remove selfconnection\<close>, and
  each call splices one entry out of \<open>selfconns\<close>; \<open>connect\<close> pushes the
  self-connection at every call (lines 232-238). After \<^verbatim>\<open>new Network(1, 1)\<close>,
  \<^verbatim>\<open>mutate(ADD_NODE)\<close> and three calls \<open>connect(h, h)\<close> for the hidden node \<open>h\<close>,
  \<open>selfconns\<close> holds the self-connection of \<open>h\<close> three times, and \<open>remove(h)\<close>
  leaves it there once, with \<open>h\<close> gone from the nodes.
\<close>

theorem remove_leaves_repeated_self_connection:
  "map nid (nodes self_connected_thrice) = [0, 2, 1]
   \<and> selfconns self_connected_thrice = [2, 2, 2]
   \<and> (case remove True self_connected_thrice 2 (const_rand 0) of
         Inl e \<Rightarrow> False
       | Inr (net', rnd') \<Rightarrow> map nid (nodes net') = [0, 1] \<and> selfconns net' = [2])"
  by (simp add: self_connected_thrice_eval remove_eval remove_in.simps remove_out.simps
      eval_nat_numeral)

section \<open>C10: clone\<close>



end
